theory Spec2Isabelle
  imports Main "HOL-Library.Multiset"
begin

section \<open>Data model\<close>

text \<open>
  The diagram wrapper of \<^verbatim>\<open>src/components/DiagramWrapper.tsx\<close> configures a graph model
  with two key allocators (\<^verbatim>\<open>makeUniqueKeyFunction\<close>, \<^verbatim>\<open>makeUniqueLinkKeyFunction\<close>) and
  registers one diagram listener while it is mounted.

  A node or link datum is a property bag (\<^verbatim>\<open>go.ObjectData\<close>) whose only property read or
  written by the allocators is \<^verbatim>\<open>key\<close>. The key is \<open>None\<close> when the property is absent
  (\<^verbatim>\<open>undefined\<close>) and \<open>Some k\<close> when it holds the number \<open>k\<close>. A number of the source
  is a double; the model covers the numbers with an integer value and writes them as
  integers.
\<close>

record object_data =
  key :: "int option"
  others :: "(string \<times> string) list"

record model =
  nodeDataArray :: "object_data list"
  linkDataArray :: "object_data list"

definition nodeKeys :: "model \<Rightarrow> int list" where
  "nodeKeys m = List.map_filter key (nodeDataArray m)"

definition linkKeys :: "model \<Rightarrow> int list" where
  "linkKeys m = List.map_filter key (linkDataArray m)"

text \<open>
  Modelled from the spec: \<^verbatim>\<open>Model.findNodeDataForKey\<close> belongs to the diagram library and
  is not under src/. It returns the node datum that carries the given key, or null when
  no node datum does (the allocator "scans existing data" for a collision).
\<close>

definition findNodeDataForKey :: "model \<Rightarrow> int \<Rightarrow> object_data option" where
  "findNodeDataForKey m k = find (\<lambda>d. key d = Some k) (nodeDataArray m)"

text \<open>
  Modelled from the spec: \<^verbatim>\<open>GraphLinksModel.findLinkDataForKey\<close> belongs to the diagram
  library and is not under src/. It returns the link datum that carries the given key,
  or null when no link datum does.
\<close>

definition findLinkDataForKey :: "model \<Rightarrow> int \<Rightarrow> object_data option" where
  "findLinkDataForKey m k = find (\<lambda>d. key d = Some k) (linkDataArray m)"

section \<open>Incrementing and decrementing a number\<close>

text \<open>
  \<^verbatim>\<open>k++\<close> adds 1 to a double and rounds the sum to the nearest double, a tie going to the
  double whose significand is even. A double has a significand of 53 bits: every integer
  of magnitude up to \<open>2 ^ 53\<close> is a double, between \<open>2 ^ 53\<close> and \<open>2 ^ 54\<close> the even integers
  are, and from \<open>2 ^ 54\<close> on the doubles are at least 4 apart. So the sum is exact while its
  magnitude is at most \<open>2 ^ 53\<close>; between \<open>2 ^ 53\<close> and \<open>2 ^ 54\<close> the sum is a tie between
  \<open>k\<close> and \<open>k + 2\<close>, won by the multiple of 4; from \<open>2 ^ 54\<close> on the sum rounds back to
  \<open>k\<close>. In particular \<open>2 ^ 53\<close> incremented is \<open>2 ^ 53\<close>. \<^verbatim>\<open>k--\<close> is the mirror image.
\<close>

definition increment :: "int \<Rightarrow> int" where
  "increment k =
     (if \<bar>k + 1\<bar> \<le> 2 ^ 53 then k + 1
      else if \<bar>k\<bar> < 2 ^ 54 then (if k mod 4 = 0 then k else k + 2)
      else k)"

definition decrement :: "int \<Rightarrow> int" where
  "decrement k =
     (if \<bar>k - 1\<bar> \<le> 2 ^ 53 then k - 1
      else if \<bar>k\<bar> < 2 ^ 54 then (if k mod 4 = 0 then k else k - 2)
      else k)"

text \<open>
  The safe integers (\<^verbatim>\<open>Number.isSafeInteger\<close>) are those of magnitude below \<open>2 ^ 53\<close>. A
  requested key is safe when it is absent or a safe integer.
\<close>

definition safeInteger :: "int \<Rightarrow> bool" where
  "safeInteger k \<longleftrightarrow> - (2 ^ 53) < k \<and> k < 2 ^ 53"

definition safeKey :: "int option \<Rightarrow> bool" where
  "safeKey requested = (case requested of None \<Rightarrow> True | Some r \<Rightarrow> safeInteger r)"

section \<open>The key allocators\<close>

text \<open>
  \<^verbatim>\<open>data.key || seed\<close>: the logical or of JavaScript yields its right operand when the
  left one is falsy. An absent key and the number 0 are both falsy.
\<close>

definition keyOr :: "int option \<Rightarrow> int \<Rightarrow> int" where
  "keyOr requested seed =
     (case requested of
        None \<Rightarrow> seed
      | Some r \<Rightarrow> if r = 0 then seed else r)"

text \<open>
  \<^verbatim>\<open>while (m.findNodeDataForKey(k)) k++;\<close> An object is truthy and null is falsy, so
  the loop runs while the lookup finds a datum. The loop need not end: the result is
  \<open>None\<close> when it runs for ever.
\<close>

partial_function (option) nodeKeyLoop :: "model \<Rightarrow> int \<Rightarrow> int option" where
  "nodeKeyLoop m k =
     (if findNodeDataForKey m k \<noteq> None then nodeKeyLoop m (increment k) else Some k)"

declare nodeKeyLoop.simps [code]

text \<open>
  \<^verbatim>\<open>makeUniqueKeyFunction: (m, data) => { let k = data.key || 1; while (...) k++;
  data.key = k; return k; }\<close> The assignment to \<^verbatim>\<open>data.key\<close> mutates the caller's datum,
  so the function returns the datum as it is after the call together with the returned
  key. The model \<open>m\<close> is only read. The result is \<open>None\<close> when the call does not return.
\<close>

definition makeUniqueKeyFunction :: "model \<Rightarrow> object_data \<Rightarrow> (object_data \<times> int) option" where
  "makeUniqueKeyFunction m data =
     (case nodeKeyLoop m (keyOr (key data) 1) of
        None \<Rightarrow> None
      | Some k \<Rightarrow> Some (data\<lparr>key := Some k\<rparr>, k))"

text \<open>\<^verbatim>\<open>while (m.findLinkDataForKey(k)) k--;\<close>\<close>

partial_function (option) linkKeyLoop :: "model \<Rightarrow> int \<Rightarrow> int option" where
  "linkKeyLoop m k =
     (if findLinkDataForKey m k \<noteq> None then linkKeyLoop m (decrement k) else Some k)"

declare linkKeyLoop.simps [code]

text \<open>
  \<^verbatim>\<open>makeUniqueLinkKeyFunction: (m, data) => { let k = data.key || -1; while (...) k--;
  data.key = k; return k; }\<close>
\<close>

definition makeUniqueLinkKeyFunction :: "model \<Rightarrow> object_data \<Rightarrow> (object_data \<times> int) option" where
  "makeUniqueLinkKeyFunction m data =
     (case linkKeyLoop m (keyOr (key data) (- 1)) of
        None \<Rightarrow> None
      | Some k \<Rightarrow> Some (data\<lparr>key := Some k\<rparr>, k))"

text \<open>
  The two loops again, with a budget of iterations: \<open>n\<close> bounds how often the loop body
  (the increment or the decrement) may run. The result is \<open>None\<close> when the loop
  condition still holds after \<open>n\<close> runs of the body.
\<close>

primrec nodeKeyLoopWithin :: "nat \<Rightarrow> model \<Rightarrow> int \<Rightarrow> int option" where
  "nodeKeyLoopWithin 0 m k =
     (if findNodeDataForKey m k \<noteq> None then None else Some k)"
| "nodeKeyLoopWithin (Suc n) m k =
     (if findNodeDataForKey m k \<noteq> None then nodeKeyLoopWithin n m (increment k) else Some k)"

primrec linkKeyLoopWithin :: "nat \<Rightarrow> model \<Rightarrow> int \<Rightarrow> int option" where
  "linkKeyLoopWithin 0 m k =
     (if findLinkDataForKey m k \<noteq> None then None else Some k)"
| "linkKeyLoopWithin (Suc n) m k =
     (if findLinkDataForKey m k \<noteq> None then linkKeyLoopWithin n m (decrement k) else Some k)"

section \<open>The allocator contract in the words of the specification\<close>

text \<open>
  Section 4.1 of the specification: \<^verbatim>\<open>allocateNodeKey(existingNodeKeys, requestedKey?)\<close>
  starts from \<^verbatim>\<open>requestedKey ?? 1\<close>; while the candidate collides with the existing node
  keys it increments by 1; it returns the first free value. The operator \<^verbatim>\<open>??\<close> replaces
  only an absent value. \<^verbatim>\<open>allocateLinkKey\<close> is symmetric, with seed \<open>-1\<close> and a
  decrement. The specification probes over unbounded integers (section 7).
\<close>

function firstFreeUpward :: "int list \<Rightarrow> int \<Rightarrow> int" where
  "firstFreeUpward existing c =
     (if c \<in> set existing then firstFreeUpward existing (c + 1) else c)"
  by pat_completeness auto
termination
proof (relation "measure (\<lambda>(ks, c). card {x \<in> set ks. c \<le> x})")
  show "wf (measure (\<lambda>(ks, c). card {x \<in> set ks. c \<le> x}))"
    by simp
next
  fix existing :: "int list" and c :: int
  assume c: "c \<in> set existing"
  have "c \<in> {x \<in> set existing. c \<le> x}" and "c \<notin> {x \<in> set existing. c + 1 \<le> x}"
    using c by simp_all
  moreover have "{x \<in> set existing. c + 1 \<le> x} \<subseteq> {x \<in> set existing. c \<le> x}"
    by auto
  ultimately have "{x \<in> set existing. c + 1 \<le> x} \<subset> {x \<in> set existing. c \<le> x}"
    by blast
  then have "card {x \<in> set existing. c + 1 \<le> x} < card {x \<in> set existing. c \<le> x}"
    by (simp add: psubset_card_mono)
  then show "((existing, c + 1), (existing, c)) \<in> measure (\<lambda>(ks, c). card {x \<in> set ks. c \<le> x})"
    by simp
qed

declare firstFreeUpward.simps [simp del]

function firstFreeDownward :: "int list \<Rightarrow> int \<Rightarrow> int" where
  "firstFreeDownward existing c =
     (if c \<in> set existing then firstFreeDownward existing (c - 1) else c)"
  by pat_completeness auto
termination
proof (relation "measure (\<lambda>(ks, c). card {x \<in> set ks. x \<le> c})")
  show "wf (measure (\<lambda>(ks, c). card {x \<in> set ks. x \<le> c}))"
    by simp
next
  fix existing :: "int list" and c :: int
  assume c: "c \<in> set existing"
  have "c \<in> {x \<in> set existing. x \<le> c}" and "c \<notin> {x \<in> set existing. x \<le> c - 1}"
    using c by simp_all
  moreover have "{x \<in> set existing. x \<le> c - 1} \<subseteq> {x \<in> set existing. x \<le> c}"
    by auto
  ultimately have "{x \<in> set existing. x \<le> c - 1} \<subset> {x \<in> set existing. x \<le> c}"
    by blast
  then have "card {x \<in> set existing. x \<le> c - 1} < card {x \<in> set existing. x \<le> c}"
    by (simp add: psubset_card_mono)
  then show "((existing, c - 1), (existing, c)) \<in> measure (\<lambda>(ks, c). card {x \<in> set ks. x \<le> c})"
    by simp
qed

declare firstFreeDownward.simps [simp del]

definition allocateNodeKey :: "int list \<Rightarrow> int option \<Rightarrow> int" where
  "allocateNodeKey existingNodeKeys requestedKey =
     firstFreeUpward existingNodeKeys (case requestedKey of None \<Rightarrow> 1 | Some r \<Rightarrow> r)"

definition allocateLinkKey :: "int list \<Rightarrow> int option \<Rightarrow> int" where
  "allocateLinkKey existingLinkKeys requestedKey =
     firstFreeDownward existingLinkKeys (case requestedKey of None \<Rightarrow> - 1 | Some r \<Rightarrow> r)"

section \<open>Sequences of creations\<close>

text \<open>
  Modelled from the spec: the graph model's \<^verbatim>\<open>addNode\<close> belongs to the diagram library and
  is not under src/. Section 4.2: with no key, or with a key that collides, it delegates
  to the key allocator before insertion, and the allocated key is written back into the
  entity. The result is the model after the insertion and the key the entity carries,
  and \<open>None\<close> when the allocator does not return.
\<close>

definition addNode :: "model \<Rightarrow> object_data \<Rightarrow> (model \<times> int) option" where
  "addNode m data =
     (case key data of
        Some r \<Rightarrow>
          if findNodeDataForKey m r \<noteq> None
          then (case makeUniqueKeyFunction m data of
                  None \<Rightarrow> None
                | Some (data', k) \<Rightarrow> Some (m\<lparr>nodeDataArray := nodeDataArray m @ [data']\<rparr>, k))
          else Some (m\<lparr>nodeDataArray := nodeDataArray m @ [data]\<rparr>, r)
      | None \<Rightarrow>
          (case makeUniqueKeyFunction m data of
             None \<Rightarrow> None
           | Some (data', k) \<Rightarrow> Some (m\<lparr>nodeDataArray := nodeDataArray m @ [data']\<rparr>, k)))"

text \<open>
  Modelled from the spec: the graph model's \<^verbatim>\<open>addLink\<close> belongs to the diagram library and
  is not under src/. Section 4.2, as for \<^verbatim>\<open>addNode\<close>, with the link key allocator and the
  link data array.
\<close>

definition addLink :: "model \<Rightarrow> object_data \<Rightarrow> (model \<times> int) option" where
  "addLink m data =
     (case key data of
        Some r \<Rightarrow>
          if findLinkDataForKey m r \<noteq> None
          then (case makeUniqueLinkKeyFunction m data of
                  None \<Rightarrow> None
                | Some (data', k) \<Rightarrow> Some (m\<lparr>linkDataArray := linkDataArray m @ [data']\<rparr>, k))
          else Some (m\<lparr>linkDataArray := linkDataArray m @ [data]\<rparr>, r)
      | None \<Rightarrow>
          (case makeUniqueLinkKeyFunction m data of
             None \<Rightarrow> None
           | Some (data', k) \<Rightarrow> Some (m\<lparr>linkDataArray := linkDataArray m @ [data']\<rparr>, k)))"

datatype creation = AddNode object_data | AddLink object_data

fun create :: "model \<Rightarrow> creation \<Rightarrow> (model \<times> int) option" where
  "create m (AddNode data) = addNode m data"
| "create m (AddLink data) = addLink m data"

text \<open>
  A run performs the creations in order and collects the key each entity received. It
  is \<open>None\<close> when one of the allocations does not return.
\<close>

fun run :: "model \<Rightarrow> creation list \<Rightarrow> (model \<times> int list) option" where
  "run m [] = Some (m, [])"
| "run m (c # cs) =
     (case create m c of
        None \<Rightarrow> None
      | Some (m', k) \<Rightarrow>
          (case run m' cs of
             None \<Rightarrow> None
           | Some (m'', ks) \<Rightarrow> Some (m'', k # ks)))"

text \<open>What a creation asks for: the kind of entity and the key its datum carries.\<close>

fun request :: "creation \<Rightarrow> bool \<times> int option" where
  "request (AddNode data) = (True, key data)"
| "request (AddLink data) = (False, key data)"

section \<open>The event bridge\<close>

text \<open>
  A handler is a function value, compared by identity when a listener is removed; it is
  modelled by an identifier. A diagram holds its listeners as registrations, pairs of an
  event name and a handler, in the order they were added.
\<close>

type_synonym handler = nat

record diagram =
  listeners :: "(string \<times> handler) list"

text \<open>
  Modelled from the spec: \<^verbatim>\<open>Diagram.addDiagramListener\<close> belongs to the diagram library and
  is not under src/. It subscribes the handler to the events of the given name.
\<close>

definition addDiagramListener :: "string \<Rightarrow> handler \<Rightarrow> diagram \<Rightarrow> diagram" where
  "addDiagramListener name listener d = d\<lparr>listeners := listeners d @ [(name, listener)]\<rparr>"

text \<open>
  Modelled from the spec: \<^verbatim>\<open>Diagram.removeDiagramListener\<close> belongs to the diagram library
  and is not under src/. It takes one subscription of the handler to the events of the
  given name away, and does nothing when there is none.
\<close>

definition removeDiagramListener :: "string \<Rightarrow> handler \<Rightarrow> diagram \<Rightarrow> diagram" where
  "removeDiagramListener name listener d = d\<lparr>listeners := remove1 (name, listener) (listeners d)\<rparr>"

text \<open>
  Modelled from the spec: the raising of a diagram event belongs to the diagram library
  and is not under src/. Every event is passed on once, synchronously and unchanged, in
  the order of subscription: the result lists the calls made, each a handler with the
  event it receives.
\<close>

definition raiseDiagramEvent :: "diagram \<Rightarrow> string \<Rightarrow> 'e \<Rightarrow> (handler \<times> 'e) list" where
  "raiseDiagramEvent d name e =
     map (\<lambda>reg. (snd reg, e)) (filter (\<lambda>reg. fst reg = name) (listeners d))"

text \<open>
  The component: its props hold the external handler \<^verbatim>\<open>onDiagramEvent\<close>; \<^verbatim>\<open>diagramRef.current\<close>
  is null or the diagram component, whose \<^verbatim>\<open>getDiagram()\<close> yields the diagram or null.
  The props are not fixed for the life of the component: its owner may hand it new
  props, and each method reads \<^verbatim>\<open>this.props\<close> when it runs.
\<close>

record DiagramProps =
  onDiagramEvent :: handler
  onModelChange :: handler
  skipsDiagramUpdate :: bool

record ReactDiagram =
  getDiagram :: "diagram option"

record DiagramWrapper =
  props :: DiagramProps
  diagramRef :: "ReactDiagram option"

text \<open>
  \<^verbatim>\<open>componentDidMount() { if (!this.diagramRef.current) return;
  const diagram = this.diagramRef.current.getDiagram();
  if (diagram instanceof go.Diagram) diagram.addDiagramListener('ChangedSelection',
  this.props.onDiagramEvent); }\<close>
\<close>

definition componentDidMount :: "DiagramWrapper \<Rightarrow> DiagramWrapper" where
  "componentDidMount this =
     (case diagramRef this of
        None \<Rightarrow> this
      | Some current \<Rightarrow>
          (case getDiagram current of
             None \<Rightarrow> this
           | Some d \<Rightarrow>
               this\<lparr>diagramRef := Some (current\<lparr>getDiagram :=
                 Some (addDiagramListener ''ChangedSelection'' (onDiagramEvent (props this)) d)\<rparr>)\<rparr>))"

text \<open>
  \<^verbatim>\<open>componentWillUnmount()\<close> has the same two guards and calls
  \<^verbatim>\<open>diagram.removeDiagramListener('ChangedSelection', this.props.onDiagramEvent)\<close>. Its
  comment in the source: "Get the diagram reference and remove listeners that were added
  during mounting."
\<close>

definition componentWillUnmount :: "DiagramWrapper \<Rightarrow> DiagramWrapper" where
  "componentWillUnmount this =
     (case diagramRef this of
        None \<Rightarrow> this
      | Some current \<Rightarrow>
          (case getDiagram current of
             None \<Rightarrow> this
           | Some d \<Rightarrow>
               this\<lparr>diagramRef := Some (current\<lparr>getDiagram :=
                 Some (removeDiagramListener ''ChangedSelection'' (onDiagramEvent (props this)) d)\<rparr>)\<rparr>))"

text \<open>
  The diagram the component reaches through its ref, if any, and the registrations on
  it; none when there is no diagram.
\<close>

definition diagramOf :: "DiagramWrapper \<Rightarrow> diagram option" where
  "diagramOf this =
     (case diagramRef this of
        None \<Rightarrow> None
      | Some current \<Rightarrow> getDiagram current)"

definition registrations :: "DiagramWrapper \<Rightarrow> (string \<times> handler) list" where
  "registrations this = (case diagramOf this of None \<Rightarrow> [] | Some d \<Rightarrow> listeners d)"

section \<open>Properties of the increment and the decrement\<close>

lemma increment_ge: "k \<le> increment k"
  by (simp add: increment_def)

lemma decrement_le: "decrement k \<le> k"
  by (simp add: decrement_def)

lemma increment_exact: "- (2 ^ 53) \<le> k \<Longrightarrow> k < 2 ^ 53 \<Longrightarrow> increment k = k + 1"
  by (simp add: increment_def)

lemma decrement_exact: "- (2 ^ 53) < k \<Longrightarrow> k \<le> 2 ^ 53 \<Longrightarrow> decrement k = k - 1"
  by (simp add: decrement_def)

lemma increment_stalls: "increment (2 ^ 53) = 2 ^ 53"
  by (simp add: increment_def)

lemma decrement_stalls: "decrement (- (2 ^ 53)) = - (2 ^ 53)"
  by (simp add: decrement_def)

section \<open>Properties of the probe loops\<close>

lemma set_keys_of: "set (List.map_filter key ds) = {k. \<exists>d \<in> set ds. key d = Some k}"
  by (induction ds) (auto split: option.splits)

lemma findNode_iff: "(findNodeDataForKey m k = None) = (k \<notin> set (nodeKeys m))"
  by (auto simp: findNodeDataForKey_def nodeKeys_def find_None_iff set_keys_of)

lemma findLink_iff: "(findLinkDataForKey m k = None) = (k \<notin> set (linkKeys m))"
  by (auto simp: findLinkDataForKey_def linkKeys_def find_None_iff set_keys_of)

lemma nodeKeyLoop_unfold:
  "nodeKeyLoop m k = (if k \<in> set (nodeKeys m) then nodeKeyLoop m (increment k) else Some k)"
  using nodeKeyLoop.simps [of m k] findNode_iff [of m k] by auto

lemma linkKeyLoop_unfold:
  "linkKeyLoop m k = (if k \<in> set (linkKeys m) then linkKeyLoop m (decrement k) else Some k)"
  using linkKeyLoop.simps [of m k] findLink_iff [of m k] by auto

lemma nodeKeyLoop_Some:
  assumes major: "nodeKeyLoop m k = Some r"
  shows "r \<notin> set (nodeKeys m) \<and> k \<le> r"
proof (rule nodeKeyLoop.raw_induct [where P = "\<lambda>m k r. r \<notin> set (nodeKeys m) \<and> k \<le> r", OF _ major])
  fix f m' k' r'
  assume ih: "\<And>m k r. f m k = Some r \<Longrightarrow> r \<notin> set (nodeKeys m) \<and> k \<le> r"
    and body: "(if findNodeDataForKey m' k' \<noteq> None then f m' (increment k') else Some k') = Some r'"
  show "r' \<notin> set (nodeKeys m') \<and> k' \<le> r'"
  proof (cases "k' \<in> set (nodeKeys m')")
    case True
    with body have "f m' (increment k') = Some r'"
      by (simp add: findNode_iff)
    then have "r' \<notin> set (nodeKeys m') \<and> increment k' \<le> r'"
      by (rule ih)
    then show ?thesis
      using increment_ge [of k'] by simp
  next
    case False
    with body show ?thesis
      by (simp add: findNode_iff)
  qed
qed

lemma linkKeyLoop_Some:
  assumes major: "linkKeyLoop m k = Some r"
  shows "r \<notin> set (linkKeys m) \<and> r \<le> k"
proof (rule linkKeyLoop.raw_induct [where P = "\<lambda>m k r. r \<notin> set (linkKeys m) \<and> r \<le> k", OF _ major])
  fix f m' k' r'
  assume ih: "\<And>m k r. f m k = Some r \<Longrightarrow> r \<notin> set (linkKeys m) \<and> r \<le> k"
    and body: "(if findLinkDataForKey m' k' \<noteq> None then f m' (decrement k') else Some k') = Some r'"
  show "r' \<notin> set (linkKeys m') \<and> r' \<le> k'"
  proof (cases "k' \<in> set (linkKeys m')")
    case True
    with body have "f m' (decrement k') = Some r'"
      by (simp add: findLink_iff)
    then have "r' \<notin> set (linkKeys m') \<and> r' \<le> decrement k'"
      by (rule ih)
    then show ?thesis
      using decrement_le [of k'] by simp
  next
    case False
    with body show ?thesis
      by (simp add: findLink_iff)
  qed
qed

text \<open>A taken candidate that the increment leaves as it is: the loop runs for ever.\<close>

lemma nodeKeyLoop_stall:
  assumes taken: "k \<in> set (nodeKeys m)" and stuck: "increment k = k"
  shows "nodeKeyLoop m k = None"
proof (cases "nodeKeyLoop m k")
  case None
  then show ?thesis .
next
  case (Some r)
  have "\<not> (m = m \<and> k = k)"
  proof (rule nodeKeyLoop.raw_induct [where P = "\<lambda>m' k' r'. \<not> (m' = m \<and> k' = k)", OF _ Some])
    fix f m' k' r'
    assume ih: "\<And>m' k' r'. f m' k' = Some r' \<Longrightarrow> \<not> (m' = m \<and> k' = k)"
      and body: "(if findNodeDataForKey m' k' \<noteq> None then f m' (increment k') else Some k') = Some r'"
    show "\<not> (m' = m \<and> k' = k)"
    proof
      assume "m' = m \<and> k' = k"
      with body taken stuck have "f m k = Some r'"
        by (simp add: findNode_iff)
      then show False
        using ih by blast
    qed
  qed
  then show ?thesis by simp
qed

lemma linkKeyLoop_stall:
  assumes taken: "k \<in> set (linkKeys m)" and stuck: "decrement k = k"
  shows "linkKeyLoop m k = None"
proof (cases "linkKeyLoop m k")
  case None
  then show ?thesis .
next
  case (Some r)
  have "\<not> (m = m \<and> k = k)"
  proof (rule linkKeyLoop.raw_induct [where P = "\<lambda>m' k' r'. \<not> (m' = m \<and> k' = k)", OF _ Some])
    fix f m' k' r'
    assume ih: "\<And>m' k' r'. f m' k' = Some r' \<Longrightarrow> \<not> (m' = m \<and> k' = k)"
      and body: "(if findLinkDataForKey m' k' \<noteq> None then f m' (decrement k') else Some k') = Some r'"
    show "\<not> (m' = m \<and> k' = k)"
    proof
      assume "m' = m \<and> k' = k"
      with body taken stuck have "f m k = Some r'"
        by (simp add: findLink_iff)
      then show False
        using ih by blast
    qed
  qed
  then show ?thesis by simp
qed

text \<open>The loops read the model only through the set of its keys.\<close>

lemma nodeKeyLoop_Some_keys_only:
  assumes major: "nodeKeyLoop m k = Some r"
  shows "\<forall>m2. set (nodeKeys m2) = set (nodeKeys m) \<longrightarrow> nodeKeyLoop m2 k = Some r"
proof (rule nodeKeyLoop.raw_induct [where P = "\<lambda>m k r.
    \<forall>m2. set (nodeKeys m2) = set (nodeKeys m) \<longrightarrow> nodeKeyLoop m2 k = Some r", OF _ major])
  fix f m' k' r'
  assume ih: "\<And>m k r. f m k = Some r \<Longrightarrow>
      \<forall>m2. set (nodeKeys m2) = set (nodeKeys m) \<longrightarrow> nodeKeyLoop m2 k = Some r"
    and body: "(if findNodeDataForKey m' k' \<noteq> None then f m' (increment k') else Some k') = Some r'"
  show "\<forall>m2. set (nodeKeys m2) = set (nodeKeys m') \<longrightarrow> nodeKeyLoop m2 k' = Some r'"
  proof (intro allI impI)
    fix m2
    assume same: "set (nodeKeys m2) = set (nodeKeys m')"
    show "nodeKeyLoop m2 k' = Some r'"
    proof (cases "k' \<in> set (nodeKeys m')")
      case True
      with body have "f m' (increment k') = Some r'"
        by (simp add: findNode_iff)
      then have "nodeKeyLoop m2 (increment k') = Some r'"
        using ih same by blast
      with True same show ?thesis
        by (simp add: nodeKeyLoop_unfold [of m2 k'])
    next
      case False
      with body have "r' = k'"
        by (simp add: findNode_iff)
      with False same show ?thesis
        by (simp add: nodeKeyLoop_unfold [of m2 k'])
    qed
  qed
qed

lemma nodeKeyLoop_keys_only:
  assumes "set (nodeKeys m1) = set (nodeKeys m2)"
  shows "nodeKeyLoop m1 k = nodeKeyLoop m2 k"
proof (cases "nodeKeyLoop m1 k")
  case (Some r)
  with nodeKeyLoop_Some_keys_only [OF Some] assms show ?thesis
    by simp
next
  case None
  show ?thesis
  proof (cases "nodeKeyLoop m2 k")
    case (Some r)
    with nodeKeyLoop_Some_keys_only [OF Some] assms have "nodeKeyLoop m1 k = Some r"
      by simp
    with None show ?thesis by simp
  next
    case None
    with \<open>nodeKeyLoop m1 k = None\<close> show ?thesis by simp
  qed
qed

lemma linkKeyLoop_Some_keys_only:
  assumes major: "linkKeyLoop m k = Some r"
  shows "\<forall>m2. set (linkKeys m2) = set (linkKeys m) \<longrightarrow> linkKeyLoop m2 k = Some r"
proof (rule linkKeyLoop.raw_induct [where P = "\<lambda>m k r.
    \<forall>m2. set (linkKeys m2) = set (linkKeys m) \<longrightarrow> linkKeyLoop m2 k = Some r", OF _ major])
  fix f m' k' r'
  assume ih: "\<And>m k r. f m k = Some r \<Longrightarrow>
      \<forall>m2. set (linkKeys m2) = set (linkKeys m) \<longrightarrow> linkKeyLoop m2 k = Some r"
    and body: "(if findLinkDataForKey m' k' \<noteq> None then f m' (decrement k') else Some k') = Some r'"
  show "\<forall>m2. set (linkKeys m2) = set (linkKeys m') \<longrightarrow> linkKeyLoop m2 k' = Some r'"
  proof (intro allI impI)
    fix m2
    assume same: "set (linkKeys m2) = set (linkKeys m')"
    show "linkKeyLoop m2 k' = Some r'"
    proof (cases "k' \<in> set (linkKeys m')")
      case True
      with body have "f m' (decrement k') = Some r'"
        by (simp add: findLink_iff)
      then have "linkKeyLoop m2 (decrement k') = Some r'"
        using ih same by blast
      with True same show ?thesis
        by (simp add: linkKeyLoop_unfold [of m2 k'])
    next
      case False
      with body have "r' = k'"
        by (simp add: findLink_iff)
      with False same show ?thesis
        by (simp add: linkKeyLoop_unfold [of m2 k'])
    qed
  qed
qed

lemma linkKeyLoop_keys_only:
  assumes "set (linkKeys m1) = set (linkKeys m2)"
  shows "linkKeyLoop m1 k = linkKeyLoop m2 k"
proof (cases "linkKeyLoop m1 k")
  case (Some r)
  with linkKeyLoop_Some_keys_only [OF Some] assms show ?thesis
    by simp
next
  case None
  show ?thesis
  proof (cases "linkKeyLoop m2 k")
    case (Some r)
    with linkKeyLoop_Some_keys_only [OF Some] assms have "linkKeyLoop m1 k = Some r"
      by simp
    with None show ?thesis by simp
  next
    case None
    with \<open>linkKeyLoop m1 k = None\<close> show ?thesis by simp
  qed
qed

section \<open>Properties of the specification's probes\<close>

lemma firstFreeUpward_free: "firstFreeUpward ks c \<notin> set ks"
proof (induction ks c rule: firstFreeUpward.induct)
  case (1 existing c)
  show ?case
  proof (cases "c \<in> set existing")
    case True
    then have "firstFreeUpward existing (c + 1) \<notin> set existing"
      by (rule "1.IH")
    with True show ?thesis
      by (simp add: firstFreeUpward.simps [of existing c])
  next
    case False
    then show ?thesis
      by (simp add: firstFreeUpward.simps [of existing c])
  qed
qed

lemma firstFreeDownward_free: "firstFreeDownward ks c \<notin> set ks"
proof (induction ks c rule: firstFreeDownward.induct)
  case (1 existing c)
  show ?case
  proof (cases "c \<in> set existing")
    case True
    then have "firstFreeDownward existing (c - 1) \<notin> set existing"
      by (rule "1.IH")
    with True show ?thesis
      by (simp add: firstFreeDownward.simps [of existing c])
  next
    case False
    then show ?thesis
      by (simp add: firstFreeDownward.simps [of existing c])
  qed
qed

lemma firstFreeUpward_range:
  "c \<le> firstFreeUpward ks c \<and> (\<forall>j. c \<le> j \<and> j < firstFreeUpward ks c \<longrightarrow> j \<in> set ks)"
proof (induction ks c rule: firstFreeUpward.induct)
  case (1 existing c)
  show ?case
  proof (cases "c \<in> set existing")
    case True
    then have ih: "c + 1 \<le> firstFreeUpward existing (c + 1) \<and>
        (\<forall>j. c + 1 \<le> j \<and> j < firstFreeUpward existing (c + 1) \<longrightarrow> j \<in> set existing)"
      by (rule "1.IH")
    have eq: "firstFreeUpward existing c = firstFreeUpward existing (c + 1)"
      using True by (simp add: firstFreeUpward.simps [of existing c])
    show ?thesis
    proof (intro conjI allI impI)
      show "c \<le> firstFreeUpward existing c"
        using ih eq by linarith
    next
      fix j
      assume j: "c \<le> j \<and> j < firstFreeUpward existing c"
      show "j \<in> set existing"
      proof (cases "j = c")
        case True
        with \<open>c \<in> set existing\<close> show ?thesis by simp
      next
        case False
        with j eq have "c + 1 \<le> j \<and> j < firstFreeUpward existing (c + 1)"
          by linarith
        with ih show ?thesis by blast
      qed
    qed
  next
    case False
    then have "firstFreeUpward existing c = c"
      by (simp add: firstFreeUpward.simps [of existing c])
    then show ?thesis by auto
  qed
qed

lemma firstFreeDownward_range:
  "firstFreeDownward ks c \<le> c \<and> (\<forall>j. firstFreeDownward ks c < j \<and> j \<le> c \<longrightarrow> j \<in> set ks)"
proof (induction ks c rule: firstFreeDownward.induct)
  case (1 existing c)
  show ?case
  proof (cases "c \<in> set existing")
    case True
    then have ih: "firstFreeDownward existing (c - 1) \<le> c - 1 \<and>
        (\<forall>j. firstFreeDownward existing (c - 1) < j \<and> j \<le> c - 1 \<longrightarrow> j \<in> set existing)"
      by (rule "1.IH")
    have eq: "firstFreeDownward existing c = firstFreeDownward existing (c - 1)"
      using True by (simp add: firstFreeDownward.simps [of existing c])
    show ?thesis
    proof (intro conjI allI impI)
      show "firstFreeDownward existing c \<le> c"
        using ih eq by linarith
    next
      fix j
      assume j: "firstFreeDownward existing c < j \<and> j \<le> c"
      show "j \<in> set existing"
      proof (cases "j = c")
        case True
        with \<open>c \<in> set existing\<close> show ?thesis by simp
      next
        case False
        with j eq have "firstFreeDownward existing (c - 1) < j \<and> j \<le> c - 1"
          by linarith
        with ih show ?thesis by blast
      qed
    qed
  next
    case False
    then have "firstFreeDownward existing c = c"
      by (simp add: firstFreeDownward.simps [of existing c])
    then show ?thesis by auto
  qed
qed

lemma firstFreeUpward_steps: "firstFreeUpward ks c \<le> c + int (card (set ks))"
proof -
  have sub: "{c ..< firstFreeUpward ks c} \<subseteq> set ks"
    using firstFreeUpward_range [where c = c and ks = ks] by auto
  have "card {c ..< firstFreeUpward ks c} \<le> card (set ks)"
    using card_mono [OF finite_set sub] .
  then show ?thesis
    using firstFreeUpward_range [where c = c and ks = ks] by simp
qed

lemma firstFreeDownward_steps: "c - int (card (set ks)) \<le> firstFreeDownward ks c"
proof -
  have sub: "{firstFreeDownward ks c <.. c} \<subseteq> set ks"
    using firstFreeDownward_range [where c = c and ks = ks] by auto
  have "card {firstFreeDownward ks c <.. c} \<le> card (set ks)"
    using card_mono [OF finite_set sub] .
  then show ?thesis
    using firstFreeDownward_range [where c = c and ks = ks] by simp
qed

lemma firstFreeUpward_bound:
  assumes "\<forall>x \<in> set ks. x < b" and "c \<le> b"
  shows "firstFreeUpward ks c \<le> b"
proof (cases "firstFreeUpward ks c = c")
  case True
  with assms(2) show ?thesis by simp
next
  case False
  then have "c \<le> firstFreeUpward ks c - 1 \<and> firstFreeUpward ks c - 1 < firstFreeUpward ks c"
    using firstFreeUpward_range [where c = c and ks = ks] by linarith
  then have "firstFreeUpward ks c - 1 \<in> set ks"
    using firstFreeUpward_range [where c = c and ks = ks] by blast
  with assms(1) have "firstFreeUpward ks c - 1 < b"
    by blast
  then show ?thesis by simp
qed

lemma firstFreeDownward_bound:
  assumes "\<forall>x \<in> set ks. b < x" and "b \<le> c"
  shows "b \<le> firstFreeDownward ks c"
proof (cases "firstFreeDownward ks c = c")
  case True
  with assms(2) show ?thesis by simp
next
  case False
  then have "firstFreeDownward ks c < firstFreeDownward ks c + 1 \<and> firstFreeDownward ks c + 1 \<le> c"
    using firstFreeDownward_range [where c = c and ks = ks] by linarith
  then have "firstFreeDownward ks c + 1 \<in> set ks"
    using firstFreeDownward_range [where c = c and ks = ks] by blast
  with assms(1) have "b < firstFreeDownward ks c + 1"
    by blast
  then show ?thesis by simp
qed

section \<open>The loops of the source against the specification's probes\<close>

text \<open>
  While the probe stays within the range where the increment is exact, the loop of the
  source returns, and returns what the specification's probe returns.
\<close>

lemma nodeKeyLoop_exact_aux:
  "set ks = set (nodeKeys m) \<Longrightarrow> - (2 ^ 53) \<le> c \<Longrightarrow> firstFreeUpward ks c \<le> 2 ^ 53 \<Longrightarrow>
   nodeKeyLoop m c = Some (firstFreeUpward ks c)"
proof (induction ks c rule: firstFreeUpward.induct)
  case (1 existing c)
  show ?case
  proof (cases "c \<in> set existing")
    case True
    have eq: "firstFreeUpward existing c = firstFreeUpward existing (c + 1)"
      using True by (simp add: firstFreeUpward.simps [of existing c])
    have "c + 1 \<le> firstFreeUpward existing (c + 1)"
      using firstFreeUpward_range [where c = "c + 1" and ks = existing] by simp
    with "1.prems"(3) eq have lt: "c < 2 ^ 53"
      by simp
    have inc: "increment c = c + 1"
      using "1.prems"(2) lt by (rule increment_exact)
    have "nodeKeyLoop m (c + 1) = Some (firstFreeUpward existing (c + 1))"
      using True "1.prems" eq by (intro "1.IH") simp_all
    with True "1.prems"(1) inc eq show ?thesis
      by (simp add: nodeKeyLoop_unfold [of m c])
  next
    case False
    with "1.prems"(1) show ?thesis
      by (simp add: nodeKeyLoop_unfold [of m c] firstFreeUpward.simps [of existing c])
  qed
qed

lemma nodeKeyLoop_exact:
  "- (2 ^ 53) \<le> k \<Longrightarrow> firstFreeUpward (nodeKeys m) k \<le> 2 ^ 53 \<Longrightarrow>
   nodeKeyLoop m k = Some (firstFreeUpward (nodeKeys m) k)"
  by (rule nodeKeyLoop_exact_aux) simp_all

lemma linkKeyLoop_exact_aux:
  "set ks = set (linkKeys m) \<Longrightarrow> c \<le> 2 ^ 53 \<Longrightarrow> - (2 ^ 53) \<le> firstFreeDownward ks c \<Longrightarrow>
   linkKeyLoop m c = Some (firstFreeDownward ks c)"
proof (induction ks c rule: firstFreeDownward.induct)
  case (1 existing c)
  show ?case
  proof (cases "c \<in> set existing")
    case True
    have eq: "firstFreeDownward existing c = firstFreeDownward existing (c - 1)"
      using True by (simp add: firstFreeDownward.simps [of existing c])
    have "firstFreeDownward existing (c - 1) \<le> c - 1"
      using firstFreeDownward_range [where c = "c - 1" and ks = existing] by simp
    with "1.prems"(3) eq have gt: "- (2 ^ 53) < c"
      by simp
    have dec: "decrement c = c - 1"
      using gt "1.prems"(2) by (rule decrement_exact)
    have "linkKeyLoop m (c - 1) = Some (firstFreeDownward existing (c - 1))"
      using True "1.prems" eq by (intro "1.IH") simp_all
    with True "1.prems"(1) dec eq show ?thesis
      by (simp add: linkKeyLoop_unfold [of m c])
  next
    case False
    with "1.prems"(1) show ?thesis
      by (simp add: linkKeyLoop_unfold [of m c] firstFreeDownward.simps [of existing c])
  qed
qed

lemma linkKeyLoop_exact:
  "k \<le> 2 ^ 53 \<Longrightarrow> - (2 ^ 53) \<le> firstFreeDownward (linkKeys m) k \<Longrightarrow>
   linkKeyLoop m k = Some (firstFreeDownward (linkKeys m) k)"
  by (rule linkKeyLoop_exact_aux) simp_all

lemma nodeKeyLoopWithin_exact:
  "- (2 ^ 53) \<le> k \<Longrightarrow> firstFreeUpward (nodeKeys m) k \<le> 2 ^ 53 \<Longrightarrow>
   card {x \<in> set (nodeKeys m). k \<le> x} \<le> n \<Longrightarrow>
   nodeKeyLoopWithin n m k = Some (firstFreeUpward (nodeKeys m) k)"
proof (induction n arbitrary: k)
  case 0
  then have "{x \<in> set (nodeKeys m). k \<le> x} = {}"
    by simp
  then have "k \<notin> set (nodeKeys m)"
    by auto
  then show ?case
    by (simp add: findNode_iff firstFreeUpward.simps [of "nodeKeys m" k])
next
  case (Suc n)
  show ?case
  proof (cases "k \<in> set (nodeKeys m)")
    case True
    have eq: "firstFreeUpward (nodeKeys m) k = firstFreeUpward (nodeKeys m) (k + 1)"
      using True by (simp add: firstFreeUpward.simps [of "nodeKeys m" k])
    have "k + 1 \<le> firstFreeUpward (nodeKeys m) (k + 1)"
      using firstFreeUpward_range [where c = "k + 1" and ks = "nodeKeys m"] by simp
    with Suc.prems(2) eq have lt: "k < 2 ^ 53"
      by simp
    have inc: "increment k = k + 1"
      using Suc.prems(1) lt by (rule increment_exact)
    have "k \<in> {x \<in> set (nodeKeys m). k \<le> x}" and "k \<notin> {x \<in> set (nodeKeys m). k + 1 \<le> x}"
      using True by simp_all
    moreover have "{x \<in> set (nodeKeys m). k + 1 \<le> x} \<subseteq> {x \<in> set (nodeKeys m). k \<le> x}"
      by auto
    ultimately have "{x \<in> set (nodeKeys m). k + 1 \<le> x} \<subset> {x \<in> set (nodeKeys m). k \<le> x}"
      by blast
    then have "card {x \<in> set (nodeKeys m). k + 1 \<le> x} < card {x \<in> set (nodeKeys m). k \<le> x}"
      by (simp add: psubset_card_mono)
    with Suc.prems(3) have c: "card {x \<in> set (nodeKeys m). k + 1 \<le> x} \<le> n"
      by linarith
    have "nodeKeyLoopWithin n m (k + 1) = Some (firstFreeUpward (nodeKeys m) (k + 1))"
      using Suc.prems(1,2) eq c by (intro Suc.IH) simp_all
    with True inc eq show ?thesis
      by (simp add: findNode_iff)
  next
    case False
    then show ?thesis
      by (simp add: findNode_iff firstFreeUpward.simps [of "nodeKeys m" k])
  qed
qed

lemma linkKeyLoopWithin_exact:
  "k \<le> 2 ^ 53 \<Longrightarrow> - (2 ^ 53) \<le> firstFreeDownward (linkKeys m) k \<Longrightarrow>
   card {x \<in> set (linkKeys m). x \<le> k} \<le> n \<Longrightarrow>
   linkKeyLoopWithin n m k = Some (firstFreeDownward (linkKeys m) k)"
proof (induction n arbitrary: k)
  case 0
  then have "{x \<in> set (linkKeys m). x \<le> k} = {}"
    by simp
  then have "k \<notin> set (linkKeys m)"
    by auto
  then show ?case
    by (simp add: findLink_iff firstFreeDownward.simps [of "linkKeys m" k])
next
  case (Suc n)
  show ?case
  proof (cases "k \<in> set (linkKeys m)")
    case True
    have eq: "firstFreeDownward (linkKeys m) k = firstFreeDownward (linkKeys m) (k - 1)"
      using True by (simp add: firstFreeDownward.simps [of "linkKeys m" k])
    have "firstFreeDownward (linkKeys m) (k - 1) \<le> k - 1"
      using firstFreeDownward_range [where c = "k - 1" and ks = "linkKeys m"] by simp
    with Suc.prems(2) eq have gt: "- (2 ^ 53) < k"
      by simp
    have dec: "decrement k = k - 1"
      using gt Suc.prems(1) by (rule decrement_exact)
    have "k \<in> {x \<in> set (linkKeys m). x \<le> k}" and "k \<notin> {x \<in> set (linkKeys m). x \<le> k - 1}"
      using True by simp_all
    moreover have "{x \<in> set (linkKeys m). x \<le> k - 1} \<subseteq> {x \<in> set (linkKeys m). x \<le> k}"
      by auto
    ultimately have "{x \<in> set (linkKeys m). x \<le> k - 1} \<subset> {x \<in> set (linkKeys m). x \<le> k}"
      by blast
    then have "card {x \<in> set (linkKeys m). x \<le> k - 1} < card {x \<in> set (linkKeys m). x \<le> k}"
      by (simp add: psubset_card_mono)
    with Suc.prems(3) have c: "card {x \<in> set (linkKeys m). x \<le> k - 1} \<le> n"
      by linarith
    have "linkKeyLoopWithin n m (k - 1) = Some (firstFreeDownward (linkKeys m) (k - 1))"
      using Suc.prems(1,2) eq c by (intro Suc.IH) simp_all
    with True dec eq show ?thesis
      by (simp add: findLink_iff)
  next
    case False
    then show ?thesis
      by (simp add: findLink_iff firstFreeDownward.simps [of "linkKeys m" k])
  qed
qed

lemma card_keys_from: "card {x \<in> set ks. P x} \<le> card (set ks)"
  by (simp add: card_mono)

lemma keys_length: "length (List.map_filter key ds) \<le> length ds"
  by (induction ds) (auto split: option.splits)

lemma card_nodeKeys: "card (set (nodeKeys m)) \<le> length (nodeDataArray m)"
  using card_length [of "nodeKeys m"] keys_length [of "nodeDataArray m"]
  by (simp add: nodeKeys_def)

lemma card_linkKeys: "card (set (linkKeys m)) \<le> length (linkDataArray m)"
  using card_length [of "linkKeys m"] keys_length [of "linkDataArray m"]
  by (simp add: linkKeys_def)

text \<open>A probe from the seed of a keyless datum returns when the array is not full.\<close>

lemma nodeKeyLoop_from_seed:
  assumes "length (nodeDataArray m) < 2 ^ 53"
  shows "nodeKeyLoop m 1 = Some (firstFreeUpward (nodeKeys m) 1)"
proof (rule nodeKeyLoop_exact)
  show "- (2 ^ 53) \<le> (1::int)"
    by simp
  have "firstFreeUpward (nodeKeys m) 1 \<le> 1 + int (card (set (nodeKeys m)))"
    by (rule firstFreeUpward_steps)
  also have "\<dots> \<le> 1 + int (length (nodeDataArray m))"
    using card_nodeKeys [of m] by simp
  also have "\<dots> \<le> 2 ^ 53"
    using assms by simp
  finally show "firstFreeUpward (nodeKeys m) 1 \<le> 2 ^ 53" .
qed

lemma linkKeyLoop_from_seed:
  assumes "length (linkDataArray m) < 2 ^ 53"
  shows "linkKeyLoop m (- 1) = Some (firstFreeDownward (linkKeys m) (- 1))"
proof (rule linkKeyLoop_exact)
  show "- 1 \<le> (2 ^ 53 :: int)"
    by simp
  have "- 1 - int (card (set (linkKeys m))) \<le> firstFreeDownward (linkKeys m) (- 1)"
    by (rule firstFreeDownward_steps)
  moreover have "int (card (set (linkKeys m))) \<le> int (length (linkDataArray m))"
    using card_linkKeys [of m] by simp
  moreover have "int (length (linkDataArray m)) < 2 ^ 53"
    using assms by simp
  ultimately show "- (2 ^ 53) \<le> firstFreeDownward (linkKeys m) (- 1)"
    by linarith
qed

section \<open>Properties of insertion\<close>

lemma keys_append:
  "List.map_filter key (ds @ [d]) =
     List.map_filter key ds @ (case key d of None \<Rightarrow> [] | Some k \<Rightarrow> [k])"
  by (induction ds) (auto split: option.splits)

lemma makeUniqueKeyFunction_eq:
  "makeUniqueKeyFunction m data =
     map_option (\<lambda>k. (data\<lparr>key := Some k\<rparr>, k)) (nodeKeyLoop m (keyOr (key data) 1))"
  by (simp add: makeUniqueKeyFunction_def split: option.splits)

lemma makeUniqueLinkKeyFunction_eq:
  "makeUniqueLinkKeyFunction m data =
     map_option (\<lambda>k. (data\<lparr>key := Some k\<rparr>, k)) (linkKeyLoop m (keyOr (key data) (- 1)))"
  by (simp add: makeUniqueLinkKeyFunction_def split: option.splits)

lemma addNode_key:
  "map_option snd (addNode m data) =
     (case key data of
        None \<Rightarrow> nodeKeyLoop m 1
      | Some r \<Rightarrow> if r \<in> set (nodeKeys m) then nodeKeyLoop m (keyOr (Some r) 1) else Some r)"
  by (auto simp: addNode_def makeUniqueKeyFunction_def findNode_iff keyOr_def
      split: option.splits)

lemma addLink_key:
  "map_option snd (addLink m data) =
     (case key data of
        None \<Rightarrow> linkKeyLoop m (- 1)
      | Some r \<Rightarrow> if r \<in> set (linkKeys m) then linkKeyLoop m (keyOr (Some r) (- 1)) else Some r)"
  by (auto simp: addLink_def makeUniqueLinkKeyFunction_def findLink_iff keyOr_def
      split: option.splits)

lemma addNode_Some:
  assumes "addNode m data = Some (m', k)"
  shows "nodeKeys m' = nodeKeys m @ [k] \<and> linkKeys m' = linkKeys m \<and> k \<notin> set (nodeKeys m) \<and>
         length (nodeDataArray m') = Suc (length (nodeDataArray m))"
proof -
  have m': "m' = m\<lparr>nodeDataArray := nodeDataArray m @ [data\<lparr>key := Some k\<rparr>]\<rparr>"
    using assms
    by (auto simp: addNode_def makeUniqueKeyFunction_def split: option.splits if_splits)
  have "map_option snd (addNode m data) = Some k"
    using assms by simp
  then have "k \<notin> set (nodeKeys m)"
    using nodeKeyLoop_Some [of m _ k]
    by (auto simp: addNode_key split: option.splits if_splits)
  then show ?thesis
    by (simp add: m' nodeKeys_def linkKeys_def keys_append)
qed

lemma addLink_Some:
  assumes "addLink m data = Some (m', k)"
  shows "linkKeys m' = linkKeys m @ [k] \<and> nodeKeys m' = nodeKeys m \<and> k \<notin> set (linkKeys m) \<and>
         length (linkDataArray m') = Suc (length (linkDataArray m))"
proof -
  have m': "m' = m\<lparr>linkDataArray := linkDataArray m @ [data\<lparr>key := Some k\<rparr>]\<rparr>"
    using assms
    by (auto simp: addLink_def makeUniqueLinkKeyFunction_def split: option.splits if_splits)
  have "map_option snd (addLink m data) = Some k"
    using assms by simp
  then have "k \<notin> set (linkKeys m)"
    using linkKeyLoop_Some [of m _ k]
    by (auto simp: addLink_key split: option.splits if_splits)
  then show ?thesis
    by (simp add: m' nodeKeys_def linkKeys_def keys_append)
qed

lemma addNode_keyless:
  "key data = None \<Longrightarrow> addNode m data = Some (m', k) \<Longrightarrow> nodeKeyLoop m 1 = Some k"
  using addNode_key [of m data] by simp

lemma addLink_keyless:
  "key data = None \<Longrightarrow> addLink m data = Some (m', k) \<Longrightarrow> linkKeyLoop m (- 1) = Some k"
  using addLink_key [of m data] by simp

lemma addNode_keyless_returns:
  "key data = None \<Longrightarrow> nodeKeyLoop m 1 = Some k \<Longrightarrow> \<exists>m'. addNode m data = Some (m', k)"
  by (simp add: addNode_def makeUniqueKeyFunction_def keyOr_def)

lemma addLink_keyless_returns:
  "key data = None \<Longrightarrow> linkKeyLoop m (- 1) = Some k \<Longrightarrow> \<exists>m'. addLink m data = Some (m', k)"
  by (simp add: addLink_def makeUniqueLinkKeyFunction_def keyOr_def)

lemma run_keyless_nodes:
  "\<forall>d \<in> set ds. key d = None \<Longrightarrow> run m (map AddNode ds) = Some (m', ks) \<Longrightarrow>
   distinct ks \<and> (\<forall>k \<in> set ks. 0 < k \<and> k \<notin> set (nodeKeys m))"
proof (induction ds arbitrary: m ks)
  case Nil
  then show ?case by simp
next
  case (Cons d ds)
  from Cons.prems(2) obtain m1 k ks' where
    add: "addNode m d = Some (m1, k)" and rest: "run m1 (map AddNode ds) = Some (m', ks')"
    and ks: "ks = k # ks'"
    by (auto split: option.splits)
  from Cons.prems(1) have none: "key d = None" and keyless: "\<forall>d \<in> set ds. key d = None"
    by simp_all
  have ih: "distinct ks' \<and> (\<forall>k \<in> set ks'. 0 < k \<and> k \<notin> set (nodeKeys m1))"
    using keyless rest by (rule Cons.IH)
  have keys1: "set (nodeKeys m1) = insert k (set (nodeKeys m))" and fresh: "k \<notin> set (nodeKeys m)"
    using addNode_Some [OF add] by simp_all
  have pos: "0 < k"
    using nodeKeyLoop_Some [OF addNode_keyless [OF none add]] by simp
  show ?case
    unfolding ks using ih keys1 fresh pos by auto
qed

lemma run_keyless_links:
  "\<forall>d \<in> set ds. key d = None \<Longrightarrow> run m (map AddLink ds) = Some (m', ks) \<Longrightarrow>
   distinct ks \<and> (\<forall>k \<in> set ks. k < 0 \<and> k \<notin> set (linkKeys m))"
proof (induction ds arbitrary: m ks)
  case Nil
  then show ?case by simp
next
  case (Cons d ds)
  from Cons.prems(2) obtain m1 k ks' where
    add: "addLink m d = Some (m1, k)" and rest: "run m1 (map AddLink ds) = Some (m', ks')"
    and ks: "ks = k # ks'"
    by (auto split: option.splits)
  from Cons.prems(1) have none: "key d = None" and keyless: "\<forall>d \<in> set ds. key d = None"
    by simp_all
  have ih: "distinct ks' \<and> (\<forall>k \<in> set ks'. k < 0 \<and> k \<notin> set (linkKeys m1))"
    using keyless rest by (rule Cons.IH)
  have keys1: "set (linkKeys m1) = insert k (set (linkKeys m))" and fresh: "k \<notin> set (linkKeys m)"
    using addLink_Some [OF add] by simp_all
  have neg: "k < 0"
    using linkKeyLoop_Some [OF addLink_keyless [OF none add]] by simp
  show ?case
    unfolding ks using ih keys1 fresh neg by auto
qed

lemma run_keyless_nodes_returns:
  "\<forall>d \<in> set ds. key d = None \<Longrightarrow> length (nodeDataArray m) + length ds \<le> 2 ^ 53 \<Longrightarrow>
   \<exists>m' ks. run m (map AddNode ds) = Some (m', ks)"
proof (induction ds arbitrary: m)
  case Nil
  then show ?case by simp
next
  case (Cons d ds)
  from Cons.prems(1) have none: "key d = None" and keyless: "\<forall>d \<in> set ds. key d = None"
    by simp_all
  from Cons.prems(2) have "length (nodeDataArray m) < 2 ^ 53"
    by simp
  then have "nodeKeyLoop m 1 = Some (firstFreeUpward (nodeKeys m) 1)"
    by (rule nodeKeyLoop_from_seed)
  with none obtain m1 where add: "addNode m d = Some (m1, firstFreeUpward (nodeKeys m) 1)"
    using addNode_keyless_returns by blast
  have "length (nodeDataArray m1) + length ds \<le> 2 ^ 53"
    using addNode_Some [OF add] Cons.prems(2) by simp
  with keyless obtain m' ks where "run m1 (map AddNode ds) = Some (m', ks)"
    using Cons.IH by blast
  with add show ?case by simp
qed

lemma run_keyless_links_returns:
  "\<forall>d \<in> set ds. key d = None \<Longrightarrow> length (linkDataArray m) + length ds \<le> 2 ^ 53 \<Longrightarrow>
   \<exists>m' ks. run m (map AddLink ds) = Some (m', ks)"
proof (induction ds arbitrary: m)
  case Nil
  then show ?case by simp
next
  case (Cons d ds)
  from Cons.prems(1) have none: "key d = None" and keyless: "\<forall>d \<in> set ds. key d = None"
    by simp_all
  from Cons.prems(2) have "length (linkDataArray m) < 2 ^ 53"
    by simp
  then have "linkKeyLoop m (- 1) = Some (firstFreeDownward (linkKeys m) (- 1))"
    by (rule linkKeyLoop_from_seed)
  with none obtain m1 where add: "addLink m d = Some (m1, firstFreeDownward (linkKeys m) (- 1))"
    using addLink_keyless_returns by blast
  have "length (linkDataArray m1) + length ds \<le> 2 ^ 53"
    using addLink_Some [OF add] Cons.prems(2) by simp
  with keyless obtain m' ks where "run m1 (map AddLink ds) = Some (m', ks)"
    using Cons.IH by blast
  with add show ?case by simp
qed

section \<open>The allocators on safe integers\<close>

lemma keyOr_safe: "safeKey requested \<Longrightarrow> safeInteger seed \<Longrightarrow> safeInteger (keyOr requested seed)"
  by (simp add: safeKey_def keyOr_def split: option.splits)

lemma nodeKeyLoop_safe:
  assumes "\<forall>x \<in> set (nodeKeys m). safeInteger x" and "safeInteger k"
  shows "nodeKeyLoop m k = Some (firstFreeUpward (nodeKeys m) k)"
proof (rule nodeKeyLoop_exact)
  show "- (2 ^ 53) \<le> k"
    using assms(2) by (simp add: safeInteger_def)
  show "firstFreeUpward (nodeKeys m) k \<le> 2 ^ 53"
    using assms by (intro firstFreeUpward_bound) (auto simp: safeInteger_def)
qed

lemma linkKeyLoop_safe:
  assumes "\<forall>x \<in> set (linkKeys m). safeInteger x" and "safeInteger k"
  shows "linkKeyLoop m k = Some (firstFreeDownward (linkKeys m) k)"
proof (rule linkKeyLoop_exact)
  show "k \<le> 2 ^ 53"
    using assms(2) by (simp add: safeInteger_def)
  show "- (2 ^ 53) \<le> firstFreeDownward (linkKeys m) k"
    using assms by (intro firstFreeDownward_bound) (auto simp: safeInteger_def)
qed

lemma nodeKeyLoopWithin_safe:
  assumes "\<forall>x \<in> set (nodeKeys m). safeInteger x" and "safeInteger k"
  shows "nodeKeyLoopWithin (card (set (nodeKeys m))) m k = Some (firstFreeUpward (nodeKeys m) k)"
proof (rule nodeKeyLoopWithin_exact)
  show "- (2 ^ 53) \<le> k"
    using assms(2) by (simp add: safeInteger_def)
  show "firstFreeUpward (nodeKeys m) k \<le> 2 ^ 53"
    using assms by (intro firstFreeUpward_bound) (auto simp: safeInteger_def)
  show "card {x \<in> set (nodeKeys m). k \<le> x} \<le> card (set (nodeKeys m))"
    by (rule card_keys_from)
qed

lemma linkKeyLoopWithin_safe:
  assumes "\<forall>x \<in> set (linkKeys m). safeInteger x" and "safeInteger k"
  shows "linkKeyLoopWithin (card (set (linkKeys m))) m k = Some (firstFreeDownward (linkKeys m) k)"
proof (rule linkKeyLoopWithin_exact)
  show "k \<le> 2 ^ 53"
    using assms(2) by (simp add: safeInteger_def)
  show "- (2 ^ 53) \<le> firstFreeDownward (linkKeys m) k"
    using assms by (intro firstFreeDownward_bound) (auto simp: safeInteger_def)
  show "card {x \<in> set (linkKeys m). x \<le> k} \<le> card (set (linkKeys m))"
    by (rule card_keys_from)
qed

lemma makeUniqueKeyFunction_safe:
  assumes "\<forall>x \<in> set (nodeKeys m). safeInteger x" and "safeKey (key data)"
  shows "makeUniqueKeyFunction m data =
    Some (data\<lparr>key := Some (firstFreeUpward (nodeKeys m) (keyOr (key data) 1))\<rparr>,
          firstFreeUpward (nodeKeys m) (keyOr (key data) 1))"
proof -
  have "safeInteger (keyOr (key data) 1)"
    using assms(2) by (rule keyOr_safe) (simp add: safeInteger_def)
  with assms(1) show ?thesis
    by (simp add: makeUniqueKeyFunction_def nodeKeyLoop_safe)
qed

lemma makeUniqueLinkKeyFunction_safe:
  assumes "\<forall>x \<in> set (linkKeys m). safeInteger x" and "safeKey (key data)"
  shows "makeUniqueLinkKeyFunction m data =
    Some (data\<lparr>key := Some (firstFreeDownward (linkKeys m) (keyOr (key data) (- 1)))\<rparr>,
          firstFreeDownward (linkKeys m) (keyOr (key data) (- 1)))"
proof -
  have "safeInteger (keyOr (key data) (- 1))"
    using assms(2) by (rule keyOr_safe) (simp add: safeInteger_def)
  with assms(1) show ?thesis
    by (simp add: makeUniqueLinkKeyFunction_def linkKeyLoop_safe)
qed

section \<open>The allocators return a free key\<close>




section \<open>Write-back of the allocated key\<close>

text \<open>
  Claim C6. After a node or link key allocation the allocated key is in the datum's
  \<^verbatim>\<open>key\<close> property, the value returned equals that property, and no other property of
  the datum is changed.
\<close>

theorem allocated_key_written_back:
  "(\<forall>data' k. makeUniqueKeyFunction m data = Some (data', k) \<longrightarrow>
      key data' = Some k \<and> others data' = others data) \<and>
   (\<forall>data' k. makeUniqueLinkKeyFunction m data = Some (data', k) \<longrightarrow>
      key data' = Some k \<and> others data' = others data)"
  by (auto simp: makeUniqueKeyFunction_def makeUniqueLinkKeyFunction_def split: option.splits)

theorem allocated_key_written_back_witness:
  "makeUniqueKeyFunction
     \<lparr>nodeDataArray = [\<lparr>key = Some 1, others = []\<rparr>],
      linkDataArray = [\<lparr>key = Some (- 1), others = []\<rparr>]\<rparr>
     \<lparr>key = None, others = [(''text'', ''C'')]\<rparr> =
     Some (\<lparr>key = Some 2, others = [(''text'', ''C'')]\<rparr>, 2) \<and>
   makeUniqueLinkKeyFunction
     \<lparr>nodeDataArray = [\<lparr>key = Some 1, others = []\<rparr>],
      linkDataArray = [\<lparr>key = Some (- 1), others = []\<rparr>]\<rparr>
     \<lparr>key = None, others = [(''text'', ''C'')]\<rparr> =
     Some (\<lparr>key = Some (- 2), others = [(''text'', ''C'')]\<rparr>, - 2) \<and>
   key \<lparr>key = Some 2, others = [(''text'', ''C'')]\<rparr> = Some 2 \<and>
   key \<lparr>key = Some (- 2), others = [(''text'', ''C'')]\<rparr> = Some (- 2)"
proof -
  have n: "makeUniqueKeyFunction
     \<lparr>nodeDataArray = [\<lparr>key = Some 1, others = []\<rparr>],
      linkDataArray = [\<lparr>key = Some (- 1), others = []\<rparr>]\<rparr>
     \<lparr>key = None, others = [(''text'', ''C'')]\<rparr> =
     Some (\<lparr>key = Some 2, others = [(''text'', ''C'')]\<rparr>, 2)"
    by code_simp
  have l: "makeUniqueLinkKeyFunction
     \<lparr>nodeDataArray = [\<lparr>key = Some 1, others = []\<rparr>],
      linkDataArray = [\<lparr>key = Some (- 1), others = []\<rparr>]\<rparr>
     \<lparr>key = None, others = [(''text'', ''C'')]\<rparr> =
     Some (\<lparr>key = Some (- 2), others = [(''text'', ''C'')]\<rparr>, - 2)"
    by code_simp
  show ?thesis
    using n l allocated_key_written_back
      [of "\<lparr>nodeDataArray = [\<lparr>key = Some 1, others = []\<rparr>],
            linkDataArray = [\<lparr>key = Some (- 1), others = []\<rparr>]\<rparr>"
          "\<lparr>key = None, others = [(''text'', ''C'')]\<rparr>"]
    by simp
qed

section \<open>A requested key of 0\<close>

text \<open>
  Claim C8. A requested key of 0 is treated as unset: the node allocator then seeds at 1
  and behaves as for a datum without a key, and a key it returns is positive; the link
  allocator seeds at -1 and behaves as for a datum without a key, and a key it returns is
  negative. Each returns a key when its data array has fewer than \<open>2 ^ 53\<close> entries, as
  every array of the source has.
\<close>

theorem zero_key_is_unset:
  assumes "key data = Some 0"
  shows "map_option snd (makeUniqueKeyFunction m data) = nodeKeyLoop m 1 \<and>
         makeUniqueKeyFunction m data = makeUniqueKeyFunction m (data\<lparr>key := None\<rparr>) \<and>
         (\<forall>data' k. makeUniqueKeyFunction m data = Some (data', k) \<longrightarrow> 0 < k) \<and>
         (length (nodeDataArray m) < 2 ^ 53 \<longrightarrow>
            (\<exists>data' k. makeUniqueKeyFunction m data = Some (data', k))) \<and>
         map_option snd (makeUniqueLinkKeyFunction m data) = linkKeyLoop m (- 1) \<and>
         makeUniqueLinkKeyFunction m data = makeUniqueLinkKeyFunction m (data\<lparr>key := None\<rparr>) \<and>
         (\<forall>data' k. makeUniqueLinkKeyFunction m data = Some (data', k) \<longrightarrow> k < 0) \<and>
         (length (linkDataArray m) < 2 ^ 53 \<longrightarrow>
            (\<exists>data' k. makeUniqueLinkKeyFunction m data = Some (data', k)))"
proof -
  have n: "makeUniqueKeyFunction m data =
      map_option (\<lambda>k. (data\<lparr>key := Some k\<rparr>, k)) (nodeKeyLoop m 1)"
    using assms by (simp add: makeUniqueKeyFunction_eq keyOr_def)
  have l: "makeUniqueLinkKeyFunction m data =
      map_option (\<lambda>k. (data\<lparr>key := Some k\<rparr>, k)) (linkKeyLoop m (- 1))"
    using assms by (simp add: makeUniqueLinkKeyFunction_eq keyOr_def)
  have n0: "makeUniqueKeyFunction m (data\<lparr>key := None\<rparr>) =
      map_option (\<lambda>k. (data\<lparr>key := Some k\<rparr>, k)) (nodeKeyLoop m 1)"
    by (simp add: makeUniqueKeyFunction_eq keyOr_def)
  have l0: "makeUniqueLinkKeyFunction m (data\<lparr>key := None\<rparr>) =
      map_option (\<lambda>k. (data\<lparr>key := Some k\<rparr>, k)) (linkKeyLoop m (- 1))"
    by (simp add: makeUniqueLinkKeyFunction_eq keyOr_def)
  have pos: "0 < k" if "nodeKeyLoop m 1 = Some k" for k
    using nodeKeyLoop_Some [OF that] by simp
  have neg: "k < 0" if "linkKeyLoop m (- 1) = Some k" for k
    using linkKeyLoop_Some [OF that] by simp
  have nret: "\<exists>k. nodeKeyLoop m 1 = Some k" if "length (nodeDataArray m) < 2 ^ 53"
    using nodeKeyLoop_from_seed [OF that] by blast
  have lret: "\<exists>k. linkKeyLoop m (- 1) = Some k" if "length (linkDataArray m) < 2 ^ 53"
    using linkKeyLoop_from_seed [OF that] by blast
  show ?thesis
    unfolding n l n0 l0
    using pos neg nret lret
    by (auto simp: option.map_comp comp_def option.map_ident)
qed

theorem zero_key_is_unset_witness:
  "key \<lparr>key = Some 0, others = []\<rparr> = Some 0 \<and>
   map_option snd (makeUniqueKeyFunction
          \<lparr>nodeDataArray = [\<lparr>key = Some 1, others = []\<rparr>],
           linkDataArray = [\<lparr>key = Some (- 1), others = []\<rparr>]\<rparr>
          \<lparr>key = Some 0, others = []\<rparr>) = Some 2 \<and>
   map_option snd (makeUniqueLinkKeyFunction
          \<lparr>nodeDataArray = [\<lparr>key = Some 1, others = []\<rparr>],
           linkDataArray = [\<lparr>key = Some (- 1), others = []\<rparr>]\<rparr>
          \<lparr>key = Some 0, others = []\<rparr>) = Some (- 2)"
proof -
  have h: "key \<lparr>key = Some 0, others = []\<rparr> = Some 0"
    by simp
  have n: "nodeKeyLoop \<lparr>nodeDataArray = [\<lparr>key = Some 1, others = []\<rparr>],
           linkDataArray = [\<lparr>key = Some (- 1), others = []\<rparr>]\<rparr> 1 = Some 2"
    by code_simp
  have l: "linkKeyLoop \<lparr>nodeDataArray = [\<lparr>key = Some 1, others = []\<rparr>],
           linkDataArray = [\<lparr>key = Some (- 1), others = []\<rparr>]\<rparr> (- 1) = Some (- 2)"
    by code_simp
  note z = zero_key_is_unset [OF h,
      of "\<lparr>nodeDataArray = [\<lparr>key = Some 1, others = []\<rparr>],
           linkDataArray = [\<lparr>key = Some (- 1), others = []\<rparr>]\<rparr>"]
  from z have zn: "map_option snd (makeUniqueKeyFunction
          \<lparr>nodeDataArray = [\<lparr>key = Some 1, others = []\<rparr>],
           linkDataArray = [\<lparr>key = Some (- 1), others = []\<rparr>]\<rparr>
          \<lparr>key = Some 0, others = []\<rparr>) =
      nodeKeyLoop \<lparr>nodeDataArray = [\<lparr>key = Some 1, others = []\<rparr>],
           linkDataArray = [\<lparr>key = Some (- 1), others = []\<rparr>]\<rparr> 1"
    by blast
  from z have zl: "map_option snd (makeUniqueLinkKeyFunction
          \<lparr>nodeDataArray = [\<lparr>key = Some 1, others = []\<rparr>],
           linkDataArray = [\<lparr>key = Some (- 1), others = []\<rparr>]\<rparr>
          \<lparr>key = Some 0, others = []\<rparr>) =
      linkKeyLoop \<lparr>nodeDataArray = [\<lparr>key = Some 1, others = []\<rparr>],
           linkDataArray = [\<lparr>key = Some (- 1), others = []\<rparr>]\<rparr> (- 1)"
    by blast
  from h trans [OF zn n] trans [OF zl l] show ?thesis
    by blast
qed

section \<open>Termination of the probes within a bound\<close>

text \<open>
  Claim C9, as stated, fails where the increment stalls: with the single node key
  \<open>2 ^ 53\<close> and a probe that starts there, the candidate never changes, so the loop does
  not end, neither within one run of its body (there is one existing key) nor at all;
  likewise the downward probe at \<open>- (2 ^ 53)\<close>.
\<close>

theorem probe_never_ends_counterexample:
  "card (set (nodeKeys
     \<lparr>nodeDataArray = [\<lparr>key = Some 9007199254740992, others = []\<rparr>],
      linkDataArray = [\<lparr>key = Some (- 9007199254740992), others = []\<rparr>]\<rparr>)) = 1 \<and>
   nodeKeyLoopWithin 1
     \<lparr>nodeDataArray = [\<lparr>key = Some 9007199254740992, others = []\<rparr>],
      linkDataArray = [\<lparr>key = Some (- 9007199254740992), others = []\<rparr>]\<rparr>
     9007199254740992 = None \<and>
   nodeKeyLoop
     \<lparr>nodeDataArray = [\<lparr>key = Some 9007199254740992, others = []\<rparr>],
      linkDataArray = [\<lparr>key = Some (- 9007199254740992), others = []\<rparr>]\<rparr>
     9007199254740992 = None \<and>
   linkKeyLoopWithin 1
     \<lparr>nodeDataArray = [\<lparr>key = Some 9007199254740992, others = []\<rparr>],
      linkDataArray = [\<lparr>key = Some (- 9007199254740992), others = []\<rparr>]\<rparr>
     (- 9007199254740992) = None \<and>
   linkKeyLoop
     \<lparr>nodeDataArray = [\<lparr>key = Some 9007199254740992, others = []\<rparr>],
      linkDataArray = [\<lparr>key = Some (- 9007199254740992), others = []\<rparr>]\<rparr>
     (- 9007199254740992) = None"
proof -
  have up: "nodeKeyLoop
      \<lparr>nodeDataArray = [\<lparr>key = Some 9007199254740992, others = []\<rparr>],
       linkDataArray = [\<lparr>key = Some (- 9007199254740992), others = []\<rparr>]\<rparr>
      9007199254740992 = None"
    by (rule nodeKeyLoop_stall) (simp_all add: nodeKeys_def increment_def)
  have down: "linkKeyLoop
      \<lparr>nodeDataArray = [\<lparr>key = Some 9007199254740992, others = []\<rparr>],
       linkDataArray = [\<lparr>key = Some (- 9007199254740992), others = []\<rparr>]\<rparr>
      (- 9007199254740992) = None"
    by (rule linkKeyLoop_stall) (simp_all add: linkKeys_def decrement_def)
  show ?thesis
    using up down
    by (simp add: nodeKeys_def findNodeDataForKey_def findLinkDataForKey_def
        increment_def decrement_def)
qed

text \<open>
  Claim C9, amended. For every model whose existing node and link keys are safe
  integers, both probe loops terminate from every start that is a safe integer, and
  the loop body runs at most as often as there are existing keys: with a budget of as
  many iterations as the model has distinct node keys the upward probe finishes with
  the result of the unbounded loop, which lies at most that many steps above the start;
  likewise the downward probe with the number of distinct link keys. This holds in
  particular for the seeds the two allocators use, when the requested key is absent or a
  safe integer.
\<close>

theorem probes_terminate_within_key_count:
  assumes "\<forall>x \<in> set (nodeKeys m). safeInteger x" and "\<forall>x \<in> set (linkKeys m). safeInteger x"
    and "safeInteger k"
  shows "(\<exists>r. nodeKeyLoop m k = Some r \<and>
              nodeKeyLoopWithin (card (set (nodeKeys m))) m k = Some r \<and>
              r \<le> k + int (card (set (nodeKeys m)))) \<and>
         (\<exists>r. linkKeyLoop m k = Some r \<and>
              linkKeyLoopWithin (card (set (linkKeys m))) m k = Some r \<and>
              k - int (card (set (linkKeys m))) \<le> r) \<and>
         (safeKey (key data) \<longrightarrow>
            (\<exists>data' r. makeUniqueKeyFunction m data = Some (data', r) \<and>
               nodeKeyLoopWithin (card (set (nodeKeys m))) m (keyOr (key data) 1) = Some r) \<and>
            (\<exists>data' r. makeUniqueLinkKeyFunction m data = Some (data', r) \<and>
               linkKeyLoopWithin (card (set (linkKeys m))) m (keyOr (key data) (- 1)) = Some r))"
proof (intro conjI impI)
  show "\<exists>r. nodeKeyLoop m k = Some r \<and>
      nodeKeyLoopWithin (card (set (nodeKeys m))) m k = Some r \<and>
      r \<le> k + int (card (set (nodeKeys m)))"
    using nodeKeyLoop_safe [OF assms(1,3)] nodeKeyLoopWithin_safe [OF assms(1,3)]
      firstFreeUpward_steps [of "nodeKeys m" k]
    by simp
  show "\<exists>r. linkKeyLoop m k = Some r \<and>
      linkKeyLoopWithin (card (set (linkKeys m))) m k = Some r \<and>
      k - int (card (set (linkKeys m))) \<le> r"
    using linkKeyLoop_safe [OF assms(2,3)] linkKeyLoopWithin_safe [OF assms(2,3)]
      firstFreeDownward_steps [of k "linkKeys m"]
    by simp
next
  assume safe: "safeKey (key data)"
  have n: "safeInteger (keyOr (key data) 1)"
    using safe by (rule keyOr_safe) (simp add: safeInteger_def)
  show "\<exists>data' r. makeUniqueKeyFunction m data = Some (data', r) \<and>
      nodeKeyLoopWithin (card (set (nodeKeys m))) m (keyOr (key data) 1) = Some r"
    using makeUniqueKeyFunction_safe [OF assms(1) safe] nodeKeyLoopWithin_safe [OF assms(1) n]
    by simp
next
  assume safe: "safeKey (key data)"
  have l: "safeInteger (keyOr (key data) (- 1))"
    using safe by (rule keyOr_safe) (simp add: safeInteger_def)
  show "\<exists>data' r. makeUniqueLinkKeyFunction m data = Some (data', r) \<and>
      linkKeyLoopWithin (card (set (linkKeys m))) m (keyOr (key data) (- 1)) = Some r"
    using makeUniqueLinkKeyFunction_safe [OF assms(2) safe] linkKeyLoopWithin_safe [OF assms(2) l]
    by simp
qed

text \<open>The worst case: node keys 1, 2, 3 are taken and the probe starts at 1.\<close>

theorem probes_terminate_within_key_count_witness:
  "list_all safeInteger (nodeKeys
     \<lparr>nodeDataArray = [\<lparr>key = Some 2, others = []\<rparr>, \<lparr>key = Some 1, others = []\<rparr>,
                       \<lparr>key = Some 3, others = []\<rparr>],
      linkDataArray = []\<rparr>) \<and>
   safeInteger 1 \<and>
   nodeKeyLoop
     \<lparr>nodeDataArray = [\<lparr>key = Some 2, others = []\<rparr>, \<lparr>key = Some 1, others = []\<rparr>,
                       \<lparr>key = Some 3, others = []\<rparr>],
      linkDataArray = []\<rparr> 1 = Some 4 \<and>
   nodeKeyLoopWithin 3
     \<lparr>nodeDataArray = [\<lparr>key = Some 2, others = []\<rparr>, \<lparr>key = Some 1, others = []\<rparr>,
                       \<lparr>key = Some 3, others = []\<rparr>],
      linkDataArray = []\<rparr> 1 = Some 4 \<and>
   nodeKeyLoopWithin 2
     \<lparr>nodeDataArray = [\<lparr>key = Some 2, others = []\<rparr>, \<lparr>key = Some 1, others = []\<rparr>,
                       \<lparr>key = Some 3, others = []\<rparr>],
      linkDataArray = []\<rparr> 1 = None"
proof -
  have hn: "\<forall>x \<in> set (nodeKeys
     \<lparr>nodeDataArray = [\<lparr>key = Some 2, others = []\<rparr>, \<lparr>key = Some 1, others = []\<rparr>,
                       \<lparr>key = Some 3, others = []\<rparr>],
      linkDataArray = []\<rparr>). safeInteger x"
    by (simp add: nodeKeys_def safeInteger_def)
  have hl: "\<forall>x \<in> set (linkKeys
     \<lparr>nodeDataArray = [\<lparr>key = Some 2, others = []\<rparr>, \<lparr>key = Some 1, others = []\<rparr>,
                       \<lparr>key = Some 3, others = []\<rparr>],
      linkDataArray = []\<rparr>). safeInteger x"
    by (simp add: linkKeys_def)
  have hk: "safeInteger 1"
    by (simp add: safeInteger_def)
  have v: "nodeKeyLoop
     \<lparr>nodeDataArray = [\<lparr>key = Some 2, others = []\<rparr>, \<lparr>key = Some 1, others = []\<rparr>,
                       \<lparr>key = Some 3, others = []\<rparr>],
      linkDataArray = []\<rparr> 1 = Some 4"
    by code_simp
  have w3: "nodeKeyLoopWithin 3
     \<lparr>nodeDataArray = [\<lparr>key = Some 2, others = []\<rparr>, \<lparr>key = Some 1, others = []\<rparr>,
                       \<lparr>key = Some 3, others = []\<rparr>],
      linkDataArray = []\<rparr> 1 = Some 4"
    by code_simp
  have w2: "nodeKeyLoopWithin 2
     \<lparr>nodeDataArray = [\<lparr>key = Some 2, others = []\<rparr>, \<lparr>key = Some 1, others = []\<rparr>,
                       \<lparr>key = Some 3, others = []\<rparr>],
      linkDataArray = []\<rparr> 1 = None"
    by code_simp
  note t = probes_terminate_within_key_count [OF hn hl hk]
  from hn have hn': "list_all safeInteger (nodeKeys
     \<lparr>nodeDataArray = [\<lparr>key = Some 2, others = []\<rparr>, \<lparr>key = Some 1, others = []\<rparr>,
                       \<lparr>key = Some 3, others = []\<rparr>],
      linkDataArray = []\<rparr>)"
    by (simp only: list_all_iff)
  from t hn' hk v w3 w2 show ?thesis
    by blast
qed

section \<open>Node key allocation\<close>

text \<open>
  Claim C1, as stated, fails in two places. For a requested key of 0 the specification's
  allocator starts from \<^verbatim>\<open>requestedKey ?? 1\<close>, which is 0, and returns 0 when 0 is free;
  the source computes \<^verbatim>\<open>data.key || 1\<close>, which is 1, and returns 1. With node key
  \<open>2 ^ 53\<close> taken and requested the specification's allocator returns \<open>2 ^ 53 + 1\<close>; in
  the source the increment leaves the candidate at \<open>2 ^ 53\<close> and the allocator never
  returns.
\<close>

theorem node_key_seed_counterexample:
  "map_option snd (makeUniqueKeyFunction \<lparr>nodeDataArray = [], linkDataArray = []\<rparr>
          \<lparr>key = Some 0, others = []\<rparr>) = Some 1 \<and>
   allocateNodeKey (nodeKeys \<lparr>nodeDataArray = [], linkDataArray = []\<rparr>)
          (key \<lparr>key = Some 0, others = []\<rparr>) = 0 \<and>
   makeUniqueKeyFunction
     \<lparr>nodeDataArray = [\<lparr>key = Some 9007199254740992, others = []\<rparr>], linkDataArray = []\<rparr>
     \<lparr>key = Some 9007199254740992, others = []\<rparr> = None \<and>
   allocateNodeKey
     (nodeKeys \<lparr>nodeDataArray = [\<lparr>key = Some 9007199254740992, others = []\<rparr>], linkDataArray = []\<rparr>)
     (key \<lparr>key = Some 9007199254740992, others = []\<rparr>) = 9007199254740993"
proof -
  have zero: "map_option snd (makeUniqueKeyFunction \<lparr>nodeDataArray = [], linkDataArray = []\<rparr>
      \<lparr>key = Some 0, others = []\<rparr>) = Some 1"
    by code_simp
  have spec0: "allocateNodeKey (nodeKeys \<lparr>nodeDataArray = [], linkDataArray = []\<rparr>)
      (key \<lparr>key = Some 0, others = []\<rparr>) = 0"
    by code_simp
  have "nodeKeyLoop
      \<lparr>nodeDataArray = [\<lparr>key = Some 9007199254740992, others = []\<rparr>], linkDataArray = []\<rparr>
      9007199254740992 = None"
    by (rule nodeKeyLoop_stall) (simp_all add: nodeKeys_def increment_def)
  then have stall: "makeUniqueKeyFunction
      \<lparr>nodeDataArray = [\<lparr>key = Some 9007199254740992, others = []\<rparr>], linkDataArray = []\<rparr>
      \<lparr>key = Some 9007199254740992, others = []\<rparr> = None"
    by (simp add: makeUniqueKeyFunction_def keyOr_def)
  have spec53: "allocateNodeKey
      (nodeKeys \<lparr>nodeDataArray = [\<lparr>key = Some 9007199254740992, others = []\<rparr>], linkDataArray = []\<rparr>)
      (key \<lparr>key = Some 9007199254740992, others = []\<rparr>) = 9007199254740993"
    by code_simp
  from zero spec0 stall spec53 show ?thesis
    by blast
qed

text \<open>
  Claim C1, amended. Node key allocation is a linear upward probe from the seed
  \<^verbatim>\<open>data.key || 1\<close>: the seed is 1 when the datum has no key and also when its key is 0,
  and the requested key otherwise. For any model whose node keys are safe integers and
  any node datum whose key is absent or a safe integer, the allocator returns the first
  value from the seed upward that no node of the model carries: it agrees with the
  specification's allocator once a requested key of 0 is passed as absent, the value is
  not below the seed, it is free, and every value from the seed up to it is taken. In
  particular, for a keyless node and any model in which node key 1 is taken and 2 is
  free, the allocator returns 2, and so does adding the node.
\<close>

theorem node_key_is_first_free_from_seed:
  "((\<forall>x \<in> set (nodeKeys m). safeInteger x) \<and> safeKey (key data) \<longrightarrow>
      (\<exists>k. map_option snd (makeUniqueKeyFunction m data) = Some k \<and>
         k = allocateNodeKey (nodeKeys m) (if key data = Some 0 then None else key data) \<and>
         (case key data of None \<Rightarrow> 1 | Some r \<Rightarrow> if r = 0 then 1 else r) \<le> k \<and>
         k \<notin> set (nodeKeys m) \<and>
         (\<forall>j. (case key data of None \<Rightarrow> 1 | Some r \<Rightarrow> if r = 0 then 1 else r) \<le> j \<and> j < k \<longrightarrow>
            j \<in> set (nodeKeys m)))) \<and>
   (key data = None \<and> 1 \<in> set (nodeKeys m) \<and> 2 \<notin> set (nodeKeys m) \<longrightarrow>
      map_option snd (makeUniqueKeyFunction m data) = Some 2 \<and>
      map_option snd (addNode m data) = Some 2)"
proof (intro conjI impI)
  let ?s = "case key data of None \<Rightarrow> 1 | Some r \<Rightarrow> if r = 0 then 1 else r"
  assume safe: "(\<forall>x \<in> set (nodeKeys m). safeInteger x) \<and> safeKey (key data)"
  have seed: "keyOr (key data) 1 = ?s"
    by (simp add: keyOr_def)
  have res: "map_option snd (makeUniqueKeyFunction m data) = Some (firstFreeUpward (nodeKeys m) ?s)"
    using safe makeUniqueKeyFunction_safe [of m data] by (simp add: seed)
  have spec: "allocateNodeKey (nodeKeys m) (if key data = Some 0 then None else key data) =
      firstFreeUpward (nodeKeys m) ?s"
    by (simp add: allocateNodeKey_def split: option.splits)
  show "\<exists>k. map_option snd (makeUniqueKeyFunction m data) = Some k \<and>
      k = allocateNodeKey (nodeKeys m) (if key data = Some 0 then None else key data) \<and>
      ?s \<le> k \<and> k \<notin> set (nodeKeys m) \<and> (\<forall>j. ?s \<le> j \<and> j < k \<longrightarrow> j \<in> set (nodeKeys m))"
    unfolding res spec
    using firstFreeUpward_free [of "nodeKeys m" ?s]
      firstFreeUpward_range [where c = ?s and ks = "nodeKeys m"]
    by blast
next
  assume scen: "key data = None \<and> 1 \<in> set (nodeKeys m) \<and> 2 \<notin> set (nodeKeys m)"
  have inc: "increment 1 = 2"
    by (simp add: increment_def)
  have two: "nodeKeyLoop m 1 = Some 2"
    using scen by (simp add: nodeKeyLoop_unfold [of m 1] nodeKeyLoop_unfold [of m 2] inc)
  show "map_option snd (makeUniqueKeyFunction m data) = Some 2"
    using scen two by (simp add: makeUniqueKeyFunction_eq keyOr_def option.map_comp comp_def)
  show "map_option snd (addNode m data) = Some 2"
    using scen two by (simp add: addNode_key)
qed

theorem node_key_is_first_free_from_seed_witness:
  "key \<lparr>key = None, others = [(''text'', ''C'')]\<rparr> = None \<and>
   1 \<in> set (nodeKeys \<lparr>nodeDataArray = [\<lparr>key = Some 1, others = [(''text'', ''A'')]\<rparr>],
                       linkDataArray = []\<rparr>) \<and>
   2 \<notin> set (nodeKeys \<lparr>nodeDataArray = [\<lparr>key = Some 1, others = [(''text'', ''A'')]\<rparr>],
                       linkDataArray = []\<rparr>) \<and>
   list_all safeInteger (nodeKeys \<lparr>nodeDataArray = [\<lparr>key = Some 1, others = [(''text'', ''A'')]\<rparr>],
                       linkDataArray = []\<rparr>) \<and>
   safeKey (key \<lparr>key = None, others = [(''text'', ''C'')]\<rparr>) \<and>
   map_option snd (makeUniqueKeyFunction
          \<lparr>nodeDataArray = [\<lparr>key = Some 1, others = [(''text'', ''A'')]\<rparr>], linkDataArray = []\<rparr>
          \<lparr>key = None, others = [(''text'', ''C'')]\<rparr>) = Some 2 \<and>
   map_option snd (addNode
          \<lparr>nodeDataArray = [\<lparr>key = Some 1, others = [(''text'', ''A'')]\<rparr>], linkDataArray = []\<rparr>
          \<lparr>key = None, others = [(''text'', ''C'')]\<rparr>) = Some 2"
proof -
  have h: "key \<lparr>key = None, others = [(''text'', ''C'')]\<rparr> = None \<and>
      1 \<in> set (nodeKeys \<lparr>nodeDataArray = [\<lparr>key = Some 1, others = [(''text'', ''A'')]\<rparr>],
                          linkDataArray = []\<rparr>) \<and>
      2 \<notin> set (nodeKeys \<lparr>nodeDataArray = [\<lparr>key = Some 1, others = [(''text'', ''A'')]\<rparr>],
                          linkDataArray = []\<rparr>)"
    by (simp add: nodeKeys_def)
  have s: "list_all safeInteger (nodeKeys \<lparr>nodeDataArray = [\<lparr>key = Some 1, others = [(''text'', ''A'')]\<rparr>],
                       linkDataArray = []\<rparr>) \<and>
      safeKey (key \<lparr>key = None, others = [(''text'', ''C'')]\<rparr>)"
    by (simp add: nodeKeys_def safeInteger_def safeKey_def)
  show ?thesis
    using h s node_key_is_first_free_from_seed
      [of "\<lparr>nodeDataArray = [\<lparr>key = Some 1, others = [(''text'', ''A'')]\<rparr>], linkDataArray = []\<rparr>"
          "\<lparr>key = None, others = [(''text'', ''C'')]\<rparr>"]
    by blast
qed

section \<open>Sequences of keyless node additions\<close>

text \<open>
  Claim C2. For every sequence of node additions in which no datum carries a key, from
  any model, the keys assigned are pairwise distinct and strictly positive (and none of
  them is a node key of the starting model). The additions all return when the node
  data array, with the nodes to add, has at most \<open>2 ^ 53\<close> entries, as every array of the
  source has.
\<close>

theorem keyless_node_keys_distinct_positive:
  assumes "\<forall>d \<in> set ds. key d = None"
  shows "(\<forall>m' ks. run m (map AddNode ds) = Some (m', ks) \<longrightarrow>
            distinct ks \<and> (\<forall>k \<in> set ks. 0 < k) \<and> set ks \<inter> set (nodeKeys m) = {}) \<and>
         (length (nodeDataArray m) + length ds \<le> 2 ^ 53 \<longrightarrow>
            (\<exists>m' ks. run m (map AddNode ds) = Some (m', ks)))"
proof (intro conjI allI impI)
  fix m' ks
  assume r: "run m (map AddNode ds) = Some (m', ks)"
  from run_keyless_nodes [OF assms r]
  show "distinct ks" and "\<forall>k \<in> set ks. 0 < k" and "set ks \<inter> set (nodeKeys m) = {}"
    by auto
next
  assume "length (nodeDataArray m) + length ds \<le> 2 ^ 53"
  with assms show "\<exists>m' ks. run m (map AddNode ds) = Some (m', ks)"
    by (rule run_keyless_nodes_returns)
qed

theorem keyless_node_keys_distinct_positive_witness:
  "map key [\<lparr>key = None, others = [(''text'', ''C'')]\<rparr>, \<lparr>key = None, others = []\<rparr>,
            \<lparr>key = None, others = [(''text'', ''E'')]\<rparr>] = [None, None, None] \<and>
   map_option snd
     (run \<lparr>nodeDataArray = [\<lparr>key = Some 1, others = []\<rparr>, \<lparr>key = Some 3, others = []\<rparr>],
           linkDataArray = []\<rparr>
        (map AddNode [\<lparr>key = None, others = [(''text'', ''C'')]\<rparr>, \<lparr>key = None, others = []\<rparr>,
                      \<lparr>key = None, others = [(''text'', ''E'')]\<rparr>])) = Some [2, 4, 5] \<and>
   distinct [2, 4, 5 :: int]"
proof -
  have h: "\<forall>d \<in> set [\<lparr>key = None, others = [(''text'', ''C'')]\<rparr>, \<lparr>key = None, others = []\<rparr>,
                \<lparr>key = None, others = [(''text'', ''E'')]\<rparr>]. key d = None"
    by simp
  have v: "map_option snd
     (run \<lparr>nodeDataArray = [\<lparr>key = Some 1, others = []\<rparr>, \<lparr>key = Some 3, others = []\<rparr>],
           linkDataArray = []\<rparr>
        (map AddNode [\<lparr>key = None, others = [(''text'', ''C'')]\<rparr>, \<lparr>key = None, others = []\<rparr>,
                      \<lparr>key = None, others = [(''text'', ''E'')]\<rparr>])) = Some [2, 4, 5]"
    by code_simp
  note t = keyless_node_keys_distinct_positive [OF h,
      of "\<lparr>nodeDataArray = [\<lparr>key = Some 1, others = []\<rparr>, \<lparr>key = Some 3, others = []\<rparr>],
             linkDataArray = []\<rparr>"]
  from v obtain m' where "run \<lparr>nodeDataArray = [\<lparr>key = Some 1, others = []\<rparr>, \<lparr>key = Some 3, others = []\<rparr>],
           linkDataArray = []\<rparr>
        (map AddNode [\<lparr>key = None, others = [(''text'', ''C'')]\<rparr>, \<lparr>key = None, others = []\<rparr>,
                      \<lparr>key = None, others = [(''text'', ''E'')]\<rparr>]) = Some (m', [2, 4, 5])"
    by auto
  with t have "distinct [2, 4, 5 :: int]"
    by blast
  with v show ?thesis
    by simp
qed

section \<open>Link key allocation\<close>

text \<open>
  Claim C3, as stated, fails in two places. For a requested key of 0 the specification's
  allocator seeds at \<^verbatim>\<open>requestedKey ?? -1\<close>, which is 0, and returns 0 when 0 is free;
  the source computes \<^verbatim>\<open>data.key || -1\<close>, which is -1, and returns -1. With link key
  \<open>- (2 ^ 53)\<close> taken and requested the specification's allocator returns
  \<open>- (2 ^ 53) - 1\<close>; in the source the decrement leaves the candidate at \<open>- (2 ^ 53)\<close>
  and the allocator never returns.
\<close>

theorem link_key_seed_counterexample:
  "map_option snd (makeUniqueLinkKeyFunction \<lparr>nodeDataArray = [], linkDataArray = []\<rparr>
          \<lparr>key = Some 0, others = []\<rparr>) = Some (- 1) \<and>
   allocateLinkKey (linkKeys \<lparr>nodeDataArray = [], linkDataArray = []\<rparr>)
          (key \<lparr>key = Some 0, others = []\<rparr>) = 0 \<and>
   makeUniqueLinkKeyFunction
     \<lparr>nodeDataArray = [], linkDataArray = [\<lparr>key = Some (- 9007199254740992), others = []\<rparr>]\<rparr>
     \<lparr>key = Some (- 9007199254740992), others = []\<rparr> = None \<and>
   allocateLinkKey
     (linkKeys \<lparr>nodeDataArray = [], linkDataArray = [\<lparr>key = Some (- 9007199254740992), others = []\<rparr>]\<rparr>)
     (key \<lparr>key = Some (- 9007199254740992), others = []\<rparr>) = - 9007199254740993"
proof -
  have zero: "map_option snd (makeUniqueLinkKeyFunction \<lparr>nodeDataArray = [], linkDataArray = []\<rparr>
      \<lparr>key = Some 0, others = []\<rparr>) = Some (- 1)"
    by code_simp
  have spec0: "allocateLinkKey (linkKeys \<lparr>nodeDataArray = [], linkDataArray = []\<rparr>)
      (key \<lparr>key = Some 0, others = []\<rparr>) = 0"
    by code_simp
  have "linkKeyLoop
      \<lparr>nodeDataArray = [], linkDataArray = [\<lparr>key = Some (- 9007199254740992), others = []\<rparr>]\<rparr>
      (- 9007199254740992) = None"
    by (rule linkKeyLoop_stall) (simp_all add: linkKeys_def decrement_def)
  then have stall: "makeUniqueLinkKeyFunction
      \<lparr>nodeDataArray = [], linkDataArray = [\<lparr>key = Some (- 9007199254740992), others = []\<rparr>]\<rparr>
      \<lparr>key = Some (- 9007199254740992), others = []\<rparr> = None"
    by (simp add: makeUniqueLinkKeyFunction_def keyOr_def)
  have spec53: "allocateLinkKey
      (linkKeys \<lparr>nodeDataArray = [], linkDataArray = [\<lparr>key = Some (- 9007199254740992), others = []\<rparr>]\<rparr>)
      (key \<lparr>key = Some (- 9007199254740992), others = []\<rparr>) = - 9007199254740993"
    by code_simp
  from zero spec0 stall spec53 show ?thesis
    by blast
qed

text \<open>
  Claim C3, amended. Link key allocation mirrors node allocation: it seeds at
  \<^verbatim>\<open>data.key || -1\<close> (-1 when the datum has no key and also when its key is 0, the
  requested key otherwise) and decrements on collision; for any model whose link keys
  are safe integers and any link datum whose key is absent or a safe integer it returns
  the first value from the seed downward that no link of the model carries. For every
  sequence of link additions in which no datum carries a key, from any model, the keys
  assigned are pairwise distinct and strictly negative; the additions all return when the
  link data array, with the links to add, has at most \<open>2 ^ 53\<close> entries, as every array
  of the source has.
\<close>

theorem link_key_is_first_free_from_seed:
  "((\<forall>x \<in> set (linkKeys m). safeInteger x) \<and> safeKey (key data) \<longrightarrow>
      (\<exists>k. map_option snd (makeUniqueLinkKeyFunction m data) = Some k \<and>
         k = allocateLinkKey (linkKeys m) (if key data = Some 0 then None else key data) \<and>
         k \<le> (case key data of None \<Rightarrow> - 1 | Some r \<Rightarrow> if r = 0 then - 1 else r) \<and>
         k \<notin> set (linkKeys m) \<and>
         (\<forall>j. k < j \<and> j \<le> (case key data of None \<Rightarrow> - 1 | Some r \<Rightarrow> if r = 0 then - 1 else r) \<longrightarrow>
            j \<in> set (linkKeys m)))) \<and>
   ((\<forall>d \<in> set ds. key d = None) \<longrightarrow>
      (\<forall>m' ks. run m (map AddLink ds) = Some (m', ks) \<longrightarrow>
         distinct ks \<and> (\<forall>k \<in> set ks. k < 0)) \<and>
      (length (linkDataArray m) + length ds \<le> 2 ^ 53 \<longrightarrow>
         (\<exists>m' ks. run m (map AddLink ds) = Some (m', ks))))"
proof (intro conjI impI allI)
  let ?s = "case key data of None \<Rightarrow> - 1 | Some r \<Rightarrow> if r = 0 then - 1 else r"
  assume safe: "(\<forall>x \<in> set (linkKeys m). safeInteger x) \<and> safeKey (key data)"
  have seed: "keyOr (key data) (- 1) = ?s"
    by (simp add: keyOr_def)
  have res: "map_option snd (makeUniqueLinkKeyFunction m data) =
      Some (firstFreeDownward (linkKeys m) ?s)"
    using safe makeUniqueLinkKeyFunction_safe [of m data] by (simp add: seed)
  have spec: "allocateLinkKey (linkKeys m) (if key data = Some 0 then None else key data) =
      firstFreeDownward (linkKeys m) ?s"
    by (simp add: allocateLinkKey_def split: option.splits)
  show "\<exists>k. map_option snd (makeUniqueLinkKeyFunction m data) = Some k \<and>
      k = allocateLinkKey (linkKeys m) (if key data = Some 0 then None else key data) \<and>
      k \<le> ?s \<and> k \<notin> set (linkKeys m) \<and> (\<forall>j. k < j \<and> j \<le> ?s \<longrightarrow> j \<in> set (linkKeys m))"
    unfolding res spec
    using firstFreeDownward_free [of "linkKeys m" ?s]
      firstFreeDownward_range [where c = ?s and ks = "linkKeys m"]
    by blast
next
  fix m' ks
  assume keyless: "\<forall>d \<in> set ds. key d = None" and r: "run m (map AddLink ds) = Some (m', ks)"
  from run_keyless_links [OF keyless r]
  show "distinct ks" and "\<forall>k \<in> set ks. k < 0"
    by auto
next
  assume "\<forall>d \<in> set ds. key d = None" and "length (linkDataArray m) + length ds \<le> 2 ^ 53"
  then show "\<exists>m' ks. run m (map AddLink ds) = Some (m', ks)"
    by (rule run_keyless_links_returns)
qed

theorem link_key_is_first_free_from_seed_witness:
  "map key [\<lparr>key = None, others = [(''from'', ''1''), (''to'', ''2'')]\<rparr>,
            \<lparr>key = None, others = [(''from'', ''2''), (''to'', ''1'')]\<rparr>] = [None, None] \<and>
   list_all safeInteger (linkKeys
     \<lparr>nodeDataArray = [\<lparr>key = Some 1, others = []\<rparr>, \<lparr>key = Some 2, others = []\<rparr>],
      linkDataArray = [\<lparr>key = Some (- 1), others = []\<rparr>]\<rparr>) \<and>
   safeKey (key \<lparr>key = Some (- 1), others = []\<rparr>) \<and>
   map_option snd (makeUniqueLinkKeyFunction
     \<lparr>nodeDataArray = [\<lparr>key = Some 1, others = []\<rparr>, \<lparr>key = Some 2, others = []\<rparr>],
      linkDataArray = [\<lparr>key = Some (- 1), others = []\<rparr>]\<rparr>
     \<lparr>key = Some (- 1), others = []\<rparr>) = Some (- 2) \<and>
   map_option snd
     (run \<lparr>nodeDataArray = [\<lparr>key = Some 1, others = []\<rparr>, \<lparr>key = Some 2, others = []\<rparr>],
           linkDataArray = [\<lparr>key = Some (- 1), others = []\<rparr>]\<rparr>
        (map AddLink [\<lparr>key = None, others = [(''from'', ''1''), (''to'', ''2'')]\<rparr>,
                      \<lparr>key = None, others = [(''from'', ''2''), (''to'', ''1'')]\<rparr>])) = Some [- 2, - 3] \<and>
   distinct [- 2, - 3 :: int]"
proof -
  have h: "\<forall>d \<in> set [\<lparr>key = None, others = [(''from'', ''1''), (''to'', ''2'')]\<rparr>,
                \<lparr>key = None, others = [(''from'', ''2''), (''to'', ''1'')]\<rparr>]. key d = None"
    by simp
  have s: "list_all safeInteger (linkKeys
     \<lparr>nodeDataArray = [\<lparr>key = Some 1, others = []\<rparr>, \<lparr>key = Some 2, others = []\<rparr>],
      linkDataArray = [\<lparr>key = Some (- 1), others = []\<rparr>]\<rparr>) \<and>
   safeKey (key \<lparr>key = Some (- 1), others = []\<rparr>)"
    by (simp add: linkKeys_def safeInteger_def safeKey_def)
  have a: "map_option snd (makeUniqueLinkKeyFunction
     \<lparr>nodeDataArray = [\<lparr>key = Some 1, others = []\<rparr>, \<lparr>key = Some 2, others = []\<rparr>],
      linkDataArray = [\<lparr>key = Some (- 1), others = []\<rparr>]\<rparr>
     \<lparr>key = Some (- 1), others = []\<rparr>) = Some (- 2)"
    by code_simp
  have v: "map_option snd
     (run \<lparr>nodeDataArray = [\<lparr>key = Some 1, others = []\<rparr>, \<lparr>key = Some 2, others = []\<rparr>],
           linkDataArray = [\<lparr>key = Some (- 1), others = []\<rparr>]\<rparr>
        (map AddLink [\<lparr>key = None, others = [(''from'', ''1''), (''to'', ''2'')]\<rparr>,
                      \<lparr>key = None, others = [(''from'', ''2''), (''to'', ''1'')]\<rparr>])) = Some [- 2, - 3]"
    by code_simp
  note t = link_key_is_first_free_from_seed
      [of "\<lparr>nodeDataArray = [\<lparr>key = Some 1, others = []\<rparr>, \<lparr>key = Some 2, others = []\<rparr>],
             linkDataArray = [\<lparr>key = Some (- 1), others = []\<rparr>]\<rparr>"
          "\<lparr>key = Some (- 1), others = []\<rparr>"
          "[\<lparr>key = None, others = [(''from'', ''1''), (''to'', ''2'')]\<rparr>,
            \<lparr>key = None, others = [(''from'', ''2''), (''to'', ''1'')]\<rparr>]"]
  from v obtain m' where "run \<lparr>nodeDataArray = [\<lparr>key = Some 1, others = []\<rparr>, \<lparr>key = Some 2, others = []\<rparr>],
           linkDataArray = [\<lparr>key = Some (- 1), others = []\<rparr>]\<rparr>
        (map AddLink [\<lparr>key = None, others = [(''from'', ''1''), (''to'', ''2'')]\<rparr>,
                      \<lparr>key = None, others = [(''from'', ''2''), (''to'', ''1'')]\<rparr>]) = Some (m', [- 2, - 3])"
    by auto
  with t h have "distinct [- 2, - 3 :: int]"
    by blast
  with s a v show ?thesis
    by simp
qed

section \<open>Determinism of key assignment\<close>

lemma create_keys_only:
  assumes "set (nodeKeys m1) = set (nodeKeys m2)" and "set (linkKeys m1) = set (linkKeys m2)"
    and "request c1 = request c2"
  shows "map_option snd (create m1 c1) = map_option snd (create m2 c2) \<and>
         (\<forall>m1' k1 m2' k2. create m1 c1 = Some (m1', k1) \<longrightarrow> create m2 c2 = Some (m2', k2) \<longrightarrow>
            set (nodeKeys m1') = set (nodeKeys m2') \<and> set (linkKeys m1') = set (linkKeys m2'))"
proof (cases c1)
  case (AddNode d1)
  with assms(3) obtain d2 where c2: "c2 = AddNode d2" and k: "key d1 = key d2"
    by (cases c2) simp_all
  have same: "map_option snd (addNode m1 d1) = map_option snd (addNode m2 d2)"
    using assms(1) k nodeKeyLoop_keys_only [OF assms(1)]
    by (simp add: addNode_key split: option.splits)
  have "set (nodeKeys m1') = set (nodeKeys m2') \<and> set (linkKeys m1') = set (linkKeys m2')"
    if a1: "addNode m1 d1 = Some (m1', k1)" and a2: "addNode m2 d2 = Some (m2', k2)"
    for m1' k1 m2' k2
  proof -
    from same a1 a2 have "k1 = k2" by simp
    with assms(1,2) addNode_Some [OF a1] addNode_Some [OF a2] show ?thesis by simp
  qed
  with same AddNode c2 show ?thesis by simp
next
  case (AddLink d1)
  with assms(3) obtain d2 where c2: "c2 = AddLink d2" and k: "key d1 = key d2"
    by (cases c2) simp_all
  have same: "map_option snd (addLink m1 d1) = map_option snd (addLink m2 d2)"
    using assms(2) k linkKeyLoop_keys_only [OF assms(2)]
    by (simp add: addLink_key split: option.splits)
  have "set (nodeKeys m1') = set (nodeKeys m2') \<and> set (linkKeys m1') = set (linkKeys m2')"
    if a1: "addLink m1 d1 = Some (m1', k1)" and a2: "addLink m2 d2 = Some (m2', k2)"
    for m1' k1 m2' k2
  proof -
    from same a1 a2 have "k1 = k2" by simp
    with assms(1,2) addLink_Some [OF a1] addLink_Some [OF a2] show ?thesis by simp
  qed
  with same AddLink c2 show ?thesis by simp
qed

lemma run_keys_only:
  "set (nodeKeys m1) = set (nodeKeys m2) \<Longrightarrow> set (linkKeys m1) = set (linkKeys m2) \<Longrightarrow>
   map request cs1 = map request cs2 \<Longrightarrow>
   map_option snd (run m1 cs1) = map_option snd (run m2 cs2)"
proof (induction cs1 arbitrary: cs2 m1 m2)
  case Nil
  then show ?case by simp
next
  case (Cons c1 cs1)
  from Cons.prems(3) obtain c2 cs2' where cs2: "cs2 = c2 # cs2'"
    and req: "request c1 = request c2" and reqs: "map request cs1 = map request cs2'"
    by (cases cs2) auto
  note step = create_keys_only [OF Cons.prems(1) Cons.prems(2) req]
  show ?case
  proof (cases "create m1 c1")
    case None
    with step have "create m2 c2 = None"
      by simp
    with None show ?thesis
      unfolding cs2 by simp
  next
    case (Some p1)
    obtain m1' k1 where p1: "p1 = (m1', k1)"
      by (cases p1)
    from step Some p1 obtain m2' where c2: "create m2 c2 = Some (m2', k1)"
      by (cases "create m2 c2") auto
    have "set (nodeKeys m1') = set (nodeKeys m2') \<and> set (linkKeys m1') = set (linkKeys m2')"
      using step Some p1 c2 by blast
    then have "map_option snd (run m1' cs1) = map_option snd (run m2' cs2')"
      using reqs by (intro Cons.IH) simp_all
    then show ?thesis
      unfolding cs2 using Some p1 c2
      by (cases "run m1' cs1"; cases "run m2' cs2'") auto
  qed
qed

text \<open>
  Claim C5. Key assignment is deterministic: two runs that perform the same sequence of
  creations from the same model state assign the same keys. More is true: the keys
  assigned, and whether the run returns, depend only on the sets of node and link keys of
  the starting model and on the kind and requested key of each creation, not on any
  other content of the model or of the data.
\<close>

theorem key_assignment_deterministic:
  assumes "set (nodeKeys m1) = set (nodeKeys m2)" and "set (linkKeys m1) = set (linkKeys m2)"
    and "map request cs1 = map request cs2"
  shows "map_option snd (run m1 cs1) = map_option snd (run m2 cs2)"
  using assms by (rule run_keys_only)

text \<open>
  Two models with the same keys but different content and order, and two sequences of
  creations with the same requests but different content.
\<close>

theorem key_assignment_deterministic_witness:
  "map_option snd
     (run \<lparr>nodeDataArray = [\<lparr>key = Some 1, others = [(''text'', ''A'')]\<rparr>,
                            \<lparr>key = Some 2, others = [(''text'', ''B'')]\<rparr>],
           linkDataArray = [\<lparr>key = Some (- 1), others = []\<rparr>]\<rparr>
        [AddNode \<lparr>key = None, others = [(''text'', ''C'')]\<rparr>,
         AddLink \<lparr>key = None, others = []\<rparr>,
         AddNode \<lparr>key = Some 1, others = []\<rparr>]) =
   map_option snd
     (run \<lparr>nodeDataArray = [\<lparr>key = Some 2, others = []\<rparr>, \<lparr>key = Some 1, others = []\<rparr>],
           linkDataArray = [\<lparr>key = Some (- 1), others = [(''from'', ''1'')]\<rparr>]\<rparr>
        [AddNode \<lparr>key = None, others = []\<rparr>,
         AddLink \<lparr>key = None, others = [(''to'', ''2'')]\<rparr>,
         AddNode \<lparr>key = Some 1, others = [(''text'', ''D'')]\<rparr>]) \<and>
   map_option snd
     (run \<lparr>nodeDataArray = [\<lparr>key = Some 1, others = [(''text'', ''A'')]\<rparr>,
                            \<lparr>key = Some 2, others = [(''text'', ''B'')]\<rparr>],
           linkDataArray = [\<lparr>key = Some (- 1), others = []\<rparr>]\<rparr>
        [AddNode \<lparr>key = None, others = [(''text'', ''C'')]\<rparr>,
         AddLink \<lparr>key = None, others = []\<rparr>,
         AddNode \<lparr>key = Some 1, others = []\<rparr>]) = Some [3, - 2, 4]"
proof -
  have n: "set (nodeKeys \<lparr>nodeDataArray = [\<lparr>key = Some 1, others = [(''text'', ''A'')]\<rparr>,
                              \<lparr>key = Some 2, others = [(''text'', ''B'')]\<rparr>],
             linkDataArray = [\<lparr>key = Some (- 1), others = []\<rparr>]\<rparr>) =
      set (nodeKeys \<lparr>nodeDataArray = [\<lparr>key = Some 2, others = []\<rparr>, \<lparr>key = Some 1, others = []\<rparr>],
             linkDataArray = [\<lparr>key = Some (- 1), others = [(''from'', ''1'')]\<rparr>]\<rparr>)"
    by (auto simp: nodeKeys_def)
  have l: "set (linkKeys \<lparr>nodeDataArray = [\<lparr>key = Some 1, others = [(''text'', ''A'')]\<rparr>,
                              \<lparr>key = Some 2, others = [(''text'', ''B'')]\<rparr>],
             linkDataArray = [\<lparr>key = Some (- 1), others = []\<rparr>]\<rparr>) =
      set (linkKeys \<lparr>nodeDataArray = [\<lparr>key = Some 2, others = []\<rparr>, \<lparr>key = Some 1, others = []\<rparr>],
             linkDataArray = [\<lparr>key = Some (- 1), others = [(''from'', ''1'')]\<rparr>]\<rparr>)"
    by (simp add: linkKeys_def)
  have r: "map request [AddNode \<lparr>key = None, others = [(''text'', ''C'')]\<rparr>,
           AddLink \<lparr>key = None, others = []\<rparr>,
           AddNode \<lparr>key = Some 1, others = []\<rparr>] =
      map request [AddNode \<lparr>key = None, others = []\<rparr>,
           AddLink \<lparr>key = None, others = [(''to'', ''2'')]\<rparr>,
           AddNode \<lparr>key = Some 1, others = [(''text'', ''D'')]\<rparr>]"
    by simp
  have v: "map_option snd
     (run \<lparr>nodeDataArray = [\<lparr>key = Some 1, others = [(''text'', ''A'')]\<rparr>,
                            \<lparr>key = Some 2, others = [(''text'', ''B'')]\<rparr>],
           linkDataArray = [\<lparr>key = Some (- 1), others = []\<rparr>]\<rparr>
        [AddNode \<lparr>key = None, others = [(''text'', ''C'')]\<rparr>,
         AddLink \<lparr>key = None, others = []\<rparr>,
         AddNode \<lparr>key = Some 1, others = []\<rparr>]) = Some [3, - 2, 4]"
    by code_simp
  from key_assignment_deterministic [OF n l r] v show ?thesis
    by blast
qed

section \<open>The event bridge over the component's life\<close>

lemma mount_absent:
  "diagramOf this = None \<Longrightarrow> componentDidMount this = this \<and> componentWillUnmount this = this"
  by (auto simp: diagramOf_def componentDidMount_def componentWillUnmount_def split: option.splits)

lemma mount_present:
  "diagramOf this = Some d \<Longrightarrow>
   diagramOf (componentDidMount this) =
     Some (d\<lparr>listeners := listeners d @ [(''ChangedSelection'', onDiagramEvent (props this))]\<rparr>) \<and>
   props (componentDidMount this) = props this"
  by (auto simp: diagramOf_def componentDidMount_def addDiagramListener_def split: option.splits)

lemma unmount_present:
  "diagramOf this = Some d \<Longrightarrow>
   diagramOf (componentWillUnmount this) =
     Some (d\<lparr>listeners := remove1 (''ChangedSelection'', onDiagramEvent (props this)) (listeners d)\<rparr>)"
  by (auto simp: diagramOf_def componentWillUnmount_def removeDiagramListener_def split: option.splits)

lemma diagramOf_props: "diagramOf (this\<lparr>props := p\<rparr>) = diagramOf this"
  by (simp add: diagramOf_def)

text \<open>
  The registrations left when the component is mounted, is handed the props \<open>p\<close>, and is
  then unmounted.
\<close>

lemma registrations_after_life:
  assumes "diagramOf this = Some d"
  shows "registrations (componentWillUnmount ((componentDidMount this)\<lparr>props := p\<rparr>)) =
         remove1 (''ChangedSelection'', onDiagramEvent p)
           (listeners d @ [(''ChangedSelection'', onDiagramEvent (props this))])"
proof -
  have "diagramOf ((componentDidMount this)\<lparr>props := p\<rparr>) =
      Some (d\<lparr>listeners := listeners d @ [(''ChangedSelection'', onDiagramEvent (props this))]\<rparr>)"
    using mount_present [OF assms] by (simp add: diagramOf_props)
  from unmount_present [OF this] show ?thesis
    by (simp add: registrations_def)
qed

text \<open>
  When the handler is the same at both times, unmounting takes away what mounting added:
  as many registrations of every name and handler are left as there were before. When
  the owner has replaced the handler in between, the registration that mounting added
  stays.
\<close>

lemma same_handler_unsubscribes:
  assumes "diagramOf this = Some d" and "onDiagramEvent p = onDiagramEvent (props this)"
  shows "mset (registrations (componentWillUnmount ((componentDidMount this)\<lparr>props := p\<rparr>))) =
         mset (listeners d)"
  using assms by (simp add: registrations_after_life)

lemma replaced_handler_stays_subscribed:
  assumes "diagramOf this = Some d" and "onDiagramEvent p \<noteq> onDiagramEvent (props this)"
  shows "(''ChangedSelection'', onDiagramEvent (props this)) \<in>
         set (registrations (componentWillUnmount ((componentDidMount this)\<lparr>props := p\<rparr>)))"
  using assms by (simp add: registrations_after_life in_set_remove1)

lemma mounted_forwards:
  assumes "diagramOf this = Some d"
  shows "registrations (componentDidMount this) =
           listeners d @ [(''ChangedSelection'', onDiagramEvent (props this))] \<and>
         raiseDiagramEvent \<lparr>listeners = registrations (componentDidMount this)\<rparr> ''ChangedSelection'' e =
           raiseDiagramEvent d ''ChangedSelection'' e @ [(onDiagramEvent (props this), e)] \<and>
         (\<forall>name. name \<noteq> ''ChangedSelection'' \<longrightarrow>
            raiseDiagramEvent \<lparr>listeners = registrations (componentDidMount this)\<rparr> name e =
              raiseDiagramEvent d name e)"
proof -
  have regs: "registrations (componentDidMount this) =
      listeners d @ [(''ChangedSelection'', onDiagramEvent (props this))]"
    using mount_present [OF assms] by (simp add: registrations_def)
  then show ?thesis
    by (auto simp: raiseDiagramEvent_def)
qed

text \<open>
  Claim C7 against the source. The component is mounted on a diagram without listeners,
  with the external handler 5: the one registration, for \<^verbatim>\<open>ChangedSelection\<close> and handler
  5, is added, and an event of that name reaches handler 5 once and unchanged. Its owner
  then hands it props with the handler 9, and the component is unmounted: the removal is
  asked for handler 9, and the registration for handler 5 that mounting added is still
  there. With the props left as they were, no registration is left.
\<close>

theorem replaced_handler_subscription_remains:
  "registrations (componentDidMount
     \<lparr>props = \<lparr>onDiagramEvent = 5, onModelChange = 6, skipsDiagramUpdate = False\<rparr>,
      diagramRef = Some \<lparr>getDiagram = Some \<lparr>listeners = []\<rparr>\<rparr>\<rparr>) = [(''ChangedSelection'', 5)] \<and>
   raiseDiagramEvent \<lparr>listeners = registrations (componentDidMount
     \<lparr>props = \<lparr>onDiagramEvent = 5, onModelChange = 6, skipsDiagramUpdate = False\<rparr>,
      diagramRef = Some \<lparr>getDiagram = Some \<lparr>listeners = []\<rparr>\<rparr>\<rparr>)\<rparr>
     ''ChangedSelection'' (42::nat) = [(5, 42)] \<and>
   registrations (componentWillUnmount ((componentDidMount
     \<lparr>props = \<lparr>onDiagramEvent = 5, onModelChange = 6, skipsDiagramUpdate = False\<rparr>,
      diagramRef = Some \<lparr>getDiagram = Some \<lparr>listeners = []\<rparr>\<rparr>\<rparr>)
     \<lparr>props := \<lparr>onDiagramEvent = 9, onModelChange = 6, skipsDiagramUpdate = False\<rparr>\<rparr>)) =
     [(''ChangedSelection'', 5)] \<and>
   registrations (componentWillUnmount (componentDidMount
     \<lparr>props = \<lparr>onDiagramEvent = 5, onModelChange = 6, skipsDiagramUpdate = False\<rparr>,
      diagramRef = Some \<lparr>getDiagram = Some \<lparr>listeners = []\<rparr>\<rparr>\<rparr>)) = []"
  by (simp add: registrations_def diagramOf_def componentDidMount_def componentWillUnmount_def
      addDiagramListener_def removeDiagramListener_def raiseDiagramEvent_def)

end
